theory Spec2Isabelle
  imports Main "HOL-Library.Char_ord" "HOL-Library.List_Lexorder" "HOL-Library.Multiset"
begin

section \<open>Python strings\<close>

text \<open>
  The script \<^verbatim>\<open>scripts/generate_docs.py\<close> works on Python \<^verbatim>\<open>str\<close> values. They are
  modelled as \<^typ>\<open>string\<close>, one \<^typ>\<open>char\<close> per code point, which covers the code
  points U+0000 to U+00FF. The character tests below are Python's on that range.
\<close>

definition code :: "char \<Rightarrow> nat" where
  "code c = of_char c"

text \<open>\<^verbatim>\<open>str.isspace\<close> on one character; also the class \<^verbatim>\<open>\s\<close> of \<^verbatim>\<open>re\<close>.\<close>

definition isspace :: "char \<Rightarrow> bool" where
  "isspace c = ((9 \<le> code c \<and> code c \<le> 13) \<or> (28 \<le> code c \<and> code c \<le> 32)
     \<or> code c = 133 \<or> code c = 160)"

definition ascii_upper :: "char \<Rightarrow> bool" where
  "ascii_upper c = (65 \<le> code c \<and> code c \<le> 90)"

definition ascii_lower :: "char \<Rightarrow> bool" where
  "ascii_lower c = (97 \<le> code c \<and> code c \<le> 122)"

definition ascii_digit :: "char \<Rightarrow> bool" where
  "ascii_digit c = (48 \<le> code c \<and> code c \<le> 57)"

text \<open>The class \<^verbatim>\<open>\w\<close> of \<^verbatim>\<open>re\<close> on a \<^verbatim>\<open>str\<close> pattern: alphanumeric or underscore.\<close>

definition isword :: "char \<Rightarrow> bool" where
  "isword c = (ascii_upper c \<or> ascii_lower c \<or> ascii_digit c \<or> c = CHR ''_''
     \<or> code c \<in> {170, 178, 179, 181, 185, 186, 188, 189, 190}
     \<or> (192 \<le> code c \<and> code c \<noteq> 215 \<and> code c \<noteq> 247))"

text \<open>\<^verbatim>\<open>str.lower\<close> on one character.\<close>

definition lower_char :: "char \<Rightarrow> char" where
  "lower_char c = (if ascii_upper c \<or> (192 \<le> code c \<and> code c \<le> 222 \<and> code c \<noteq> 215)
     then char_of (code c + 32) else c)"

definition lower :: "string \<Rightarrow> string" where
  "lower s = map lower_char s"

text \<open>\<^verbatim>\<open>s.strip()\<close> and \<^verbatim>\<open>s.strip(chars)\<close>.\<close>

definition strip_where :: "(char \<Rightarrow> bool) \<Rightarrow> string \<Rightarrow> string" where
  "strip_where P s = rev (dropWhile P (rev (dropWhile P s)))"

definition strip :: "string \<Rightarrow> string" where
  "strip s = strip_where isspace s"

definition strip_chars :: "string \<Rightarrow> string \<Rightarrow> string" where
  "strip_chars cs s = strip_where (\<lambda>c. c \<in> set cs) s"

text \<open>\<^verbatim>\<open>s.startswith(p)\<close>, \<^verbatim>\<open>sub in s\<close>, \<^verbatim>\<open>s.find(sub)\<close> (\<open>None\<close> for -1).\<close>

definition startswith :: "string \<Rightarrow> string \<Rightarrow> bool" where
  "startswith s p = (take (length p) s = p)"

fun contains :: "string \<Rightarrow> string \<Rightarrow> bool" where
  "contains sub [] = (sub = [])"
| "contains sub (c # cs) = (startswith (c # cs) sub \<or> contains sub cs)"

fun find :: "string \<Rightarrow> string \<Rightarrow> nat option" where
  "find [] sub = (if sub = [] then Some 0 else None)"
| "find (c # cs) sub =
     (if startswith (c # cs) sub then Some 0 else map_option Suc (find cs sub))"

text \<open>\<^verbatim>\<open>s.replace(old, new)\<close>: the occurrences of \<open>old\<close>, left to right, none overlapping.\<close>

function replace :: "string \<Rightarrow> string \<Rightarrow> string \<Rightarrow> string" where
  "replace old new [] = (if old = [] then new else [])"
| "replace old new (c # cs) =
     (if old = [] then new @ c # replace old new cs
      else if startswith (c # cs) old then new @ replace old new (drop (length old) (c # cs))
      else c # replace old new cs)"
  by pat_completeness auto
termination
  by (relation "measure (\<lambda>(old, new, s). length s)") (auto simp: startswith_def)

text \<open>\<^verbatim>\<open>s.split(sep)\<close> for a separator of one character, and \<^verbatim>\<open>sep.join(xs)\<close>.\<close>

fun split_acc :: "char \<Rightarrow> string \<Rightarrow> string \<Rightarrow> string list" where
  "split_acc sep acc [] = [rev acc]"
| "split_acc sep acc (c # cs) =
     (if c = sep then rev acc # split_acc sep [] cs else split_acc sep (c # acc) cs)"

definition split :: "char \<Rightarrow> string \<Rightarrow> string list" where
  "split sep s = split_acc sep [] s"

fun join :: "string \<Rightarrow> string list \<Rightarrow> string" where
  "join sep [] = []"
| "join sep [x] = x"
| "join sep (x # y # ys) = x @ sep @ join sep (y # ys)"

text \<open>\<^verbatim>\<open>str(n)\<close> for a count: its decimal digits.\<close>

definition digit_char :: "nat \<Rightarrow> char" where
  "digit_char d = char_of (48 + d)"

fun str_nat :: "nat \<Rightarrow> string" where
  "str_nat n = (if n < 10 then [digit_char n] else str_nat (n div 10) @ [digit_char (n mod 10)])"

declare str_nat.simps [simp del]

section \<open>The anchor generator\<close>

text \<open>
  \<^verbatim>\<open>re.sub(r'[^a-zA-Z0-9_-]', '-', name).lower().strip('-')\<close>
\<close>

definition anchor_char :: "char \<Rightarrow> bool" where
  "anchor_char c = (ascii_lower c \<or> ascii_upper c \<or> ascii_digit c \<or> c = CHR ''_'' \<or> c = CHR ''-'')"

definition make_anchor :: "string \<Rightarrow> string" where
  "make_anchor name =
     strip_chars ''-'' (lower (map (\<lambda>c. if anchor_char c then c else CHR ''-'') name))"

text \<open>The characters of \<^verbatim>\<open>[a-z0-9_-]\<close>.\<close>

definition anchor_out_char :: "char \<Rightarrow> bool" where
  "anchor_out_char c = (ascii_lower c \<or> ascii_digit c \<or> c = CHR ''_'' \<or> c = CHR ''-'')"

definition endswith :: "string \<Rightarrow> string \<Rightarrow> bool" where
  "endswith s p = startswith (rev s) (rev p)"

section \<open>Taxonomy\<close>

definition SECTION_GROUPS :: "(string \<times> string list) list" where
  "SECTION_GROUPS =
    [(''Language'',
        [''Core'', ''Phase Transitions'', ''Type Constructors'', ''Type Conversion'',
         ''Error Handling'']),
     (''Standard Library'',
        [''Math'', ''String Formatting'', ''Regex'', ''JSON'', ''CSV'', ''URL'', ''Functional'',
         ''Metaprogramming'']),
     (''System'',
        [''File System'', ''Path'', ''Environment'', ''Process'', ''Date & Time'', ''Crypto'',
         ''Networking'']),
     (''Type Methods'',
        [''String Methods'', ''Array Methods'', ''Map Methods'', ''Channel Methods''])]"

definition CATEGORY_ORDER :: "string list" where
  "CATEGORY_ORDER = concat (map snd SECTION_GROUPS)"

section \<open>Doc comment parser\<close>

record DocEntry =
  kind :: string
  signature :: string
  name :: string
  category :: string
  description :: string
  examples :: "string list"

text \<open>\<^verbatim>\<open>DocEntry()\<close>: every field empty.\<close>

definition new_entry :: DocEntry where
  "new_entry = \<lparr>kind = [], signature = [], name = [], category = [], description = [],
     examples = []\<rparr>"

text \<open>
  The first line of a block: \<open>line\<close> is the stripped line, known to start with
  \<^verbatim>\<open>///\<close> and to contain one of the two tags.
\<close>

definition start_entry :: "string \<Rightarrow> DocEntry" where
  "start_entry line =
     (let content = strip (drop 3 line);
          entry = (if contains ''@builtin'' content
                   then new_entry\<lparr>kind := ''builtin'',
                          signature := strip (replace ''@builtin'' [] content)\<rparr>
                   else if contains ''@method'' content
                   then new_entry\<lparr>kind := ''method'',
                          signature := strip (replace ''@method'' [] content)\<rparr>
                   else new_entry)
      in (case find (signature entry) ''('' of
            Some paren_idx \<Rightarrow> entry\<lparr>name := strip (take paren_idx (signature entry))\<rparr>
          | None \<Rightarrow> entry\<lparr>name := strip (signature entry)\<rparr>))"

text \<open>
  The inner loop over the following \<^verbatim>\<open>///\<close> lines. It returns the entry, the
  description lines and the lines left, the first of which ended the block.
\<close>

fun read_block :: "DocEntry \<Rightarrow> string list \<Rightarrow> string list \<Rightarrow> DocEntry \<times> string list \<times> string list" where
  "read_block entry desc_lines [] = (entry, desc_lines, [])"
| "read_block entry desc_lines (l # ls) =
     (let next_line = strip l in
      if \<not> startswith next_line ''///'' then (entry, desc_lines, l # ls)
      else
        let content = strip (drop 3 next_line) in
        if startswith content ''@category''
        then read_block (entry\<lparr>category := strip (replace ''@category'' [] content)\<rparr>)
               desc_lines ls
        else if startswith content ''@example''
        then read_block
               (entry\<lparr>examples := examples entry @ [strip (replace ''@example'' [] content)]\<rparr>)
               desc_lines ls
        else read_block entry (if content \<noteq> [] then desc_lines @ [content] else desc_lines) ls)"

lemma read_block_rest: "length (snd (snd (read_block entry desc_lines ls))) \<le> length ls"
  by (induction ls arbitrary: entry desc_lines) (auto simp: Let_def intro: le_SucI)

definition block_start :: "string \<Rightarrow> bool" where
  "block_start line =
     (startswith line ''///'' \<and> (contains ''@builtin'' line \<or> contains ''@method'' line))"

function parse_lines :: "string list \<Rightarrow> DocEntry list" where
  "parse_lines [] = []"
| "parse_lines (l # ls) =
     (if block_start (strip l)
      then (case read_block (start_entry (strip l)) [] ls of
              (entry, desc_lines, rest) \<Rightarrow>
                entry\<lparr>description := join '' '' desc_lines\<rparr> # parse_lines rest)
      else parse_lines ls)"
  by pat_completeness auto
termination
  apply (relation "measure length")
  apply auto
  subgoal for l ls x a b
    using read_block_rest [of "start_entry (strip l)" "[]" ls]
    by (metis le_imp_less_Suc snd_conv)
  done

definition parse_doc_blocks :: "string \<Rightarrow> DocEntry list" where
  "parse_doc_blocks source_text = parse_lines (split CHR ''\<newline>'' source_text)"

section \<open>Source scanner\<close>

text \<open>
  What \<^verbatim>\<open>Path(src_dir)\<close> names: nothing (\<open>None\<close>), or a directory, given as the list
  of its children in the order \<^verbatim>\<open>glob\<close> yields them. A child is a file with its decoded
  text (\<open>None\<close> when \<^verbatim>\<open>read_text\<close> raises) or a directory with its own children.
\<close>

datatype node = File "string option" | Directory "(string \<times> node) list"

type_synonym listing = "(string \<times> node) list"

text \<open>\<^verbatim>\<open>glob("*.c")\<close>: the children whose name ends in \<^verbatim>\<open>.c\<close>.\<close>

definition glob_c :: "listing \<Rightarrow> listing" where
  "glob_c children = filter (\<lambda>(nm, nd). endswith nm ''.c'') children"

text \<open>The body of the \<^verbatim>\<open>try\<close>: a child that cannot be read as text gives no entry.\<close>

fun file_entries :: "string \<times> node \<Rightarrow> DocEntry list" where
  "file_entries (nm, File (Some text)) = parse_doc_blocks text"
| "file_entries (nm, File None) = []"
| "file_entries (nm, Directory children) = []"

text \<open>\<^verbatim>\<open>sorted(src_path.glob("*.c"))\<close>: paths of one directory are ordered by their names.\<close>

definition c_files :: "listing \<Rightarrow> listing" where
  "c_files children = sort_key fst (glob_c children)"

fun scan_source_files :: "listing option \<Rightarrow> DocEntry list" where
  "scan_source_files None = []"
| "scan_source_files (Some children) = concat (map file_entries (c_files children))"

section \<open>Categorizer\<close>

text \<open>The \<^verbatim>\<open>OrderedDict\<close> of groups: keys in insertion order, each once.\<close>

type_synonym groups = "(string \<times> DocEntry list) list"

definition has_key :: "groups \<Rightarrow> string \<Rightarrow> bool" where
  "has_key gs cat = (cat \<in> set (map fst gs))"

definition append_entry :: "groups \<Rightarrow> string \<Rightarrow> DocEntry \<Rightarrow> groups" where
  "append_entry gs cat entry = map (\<lambda>(k, v). if k = cat then (k, v @ [entry]) else (k, v)) gs"

definition entry_category :: "DocEntry \<Rightarrow> string" where
  "entry_category entry = (if category entry \<noteq> [] then category entry else ''Core'')"

definition place_entry :: "groups \<Rightarrow> DocEntry \<Rightarrow> groups" where
  "place_entry gs entry =
     (let cat = entry_category entry;
          gs' = (if \<not> has_key gs cat then gs @ [(cat, [])] else gs)
      in append_entry gs' cat entry)"

definition group_by_category :: "DocEntry list \<Rightarrow> groups" where
  "group_by_category entries =
     filter (\<lambda>(k, v). v \<noteq> []) (foldl place_entry (map (\<lambda>cat. (cat, [])) CATEGORY_ORDER) entries)"

section \<open>HTML generation\<close>

text \<open>\<^verbatim>\<open>html.escape(text, quote=True)\<close>\<close>

definition escape_char :: "char \<Rightarrow> string" where
  "escape_char c =
     (if c = CHR ''&'' then ''&amp;''
      else if c = CHR ''<'' then ''&lt;''
      else if c = CHR ''>'' then ''&gt;''
      else if c = CHR 0x22 then ''&quot;''
      else if c = CHR 0x27 then ''&#x27;''
      else [c])"

definition escape :: "string \<Rightarrow> string" where
  "escape text = concat (map escape_char text)"

subsection \<open>The signature pattern\<close>

text \<open>
  \<^verbatim>\<open>re.match(r'^([\w:.]+)\s*\((.*?)\)\s*(->\s*(.+))?$', sig, re.DOTALL)\<close>

  \<^verbatim>\<open>re\<close> matches by backtracking. Each element of the pattern is a function of the
  text left and of a continuation for the rest of the pattern; it tries its alternatives in
  the order \<^verbatim>\<open>re\<close> does and returns the first match the continuation accepts.
\<close>

text \<open>\<^verbatim>\<open>x*\<close> for a character class: the longest run first. The continuation gets the run.\<close>

fun greedy_star :: "(char \<Rightarrow> bool) \<Rightarrow> (string \<Rightarrow> string \<Rightarrow> 'a option) \<Rightarrow> string \<Rightarrow> string \<Rightarrow> 'a option" where
  "greedy_star P k acc [] = k acc []"
| "greedy_star P k acc (c # cs) =
     (if P c
      then (case greedy_star P k (acc @ [c]) cs of Some r \<Rightarrow> Some r | None \<Rightarrow> k acc (c # cs))
      else k acc (c # cs))"

text \<open>\<^verbatim>\<open>x*?\<close>: the shortest run first.\<close>

fun lazy_star :: "(char \<Rightarrow> bool) \<Rightarrow> (string \<Rightarrow> string \<Rightarrow> 'a option) \<Rightarrow> string \<Rightarrow> string \<Rightarrow> 'a option" where
  "lazy_star P k acc [] = k acc []"
| "lazy_star P k acc (c # cs) =
     (case k acc (c # cs) of
        Some r \<Rightarrow> Some r
      | None \<Rightarrow> if P c then lazy_star P k (acc @ [c]) cs else None)"

text \<open>\<^verbatim>\<open>x+\<close>: as \<^verbatim>\<open>x*\<close>, a run of no character being no match.\<close>

definition greedy_plus :: "(char \<Rightarrow> bool) \<Rightarrow> (string \<Rightarrow> string \<Rightarrow> 'a option) \<Rightarrow> string \<Rightarrow> 'a option" where
  "greedy_plus P k s = greedy_star P (\<lambda>run rest. if run = [] then None else k run rest) [] s"

text \<open>A literal text.\<close>

definition lit :: "string \<Rightarrow> (string \<Rightarrow> 'a option) \<Rightarrow> string \<Rightarrow> 'a option" where
  "lit p k s = (if startswith s p then k (drop (length p) s) else None)"

text \<open>\<^verbatim>\<open>$\<close> without \<^verbatim>\<open>re.MULTILINE\<close>: the end of the text, or a newline that ends it.\<close>

definition at_end :: "'a \<Rightarrow> string \<Rightarrow> 'a option" where
  "at_end r s = (if s = [] \<or> s = [CHR ''\<newline>''] then Some r else None)"

definition name_char :: "char \<Rightarrow> bool" where
  "name_char c = (isword c \<or> c = CHR '':'' \<or> c = CHR ''.'')"

text \<open>
  The end of the pattern, after the \<^verbatim>\<open>)\<close>: \<^verbatim>\<open>\s*(->\s*(.+))?$\<close>. The optional group
  is tried first, then skipped. The result is the groups 3 and 4 (\<open>None\<close> when the group
  took no part in the match), added to groups 1 and 2.
\<close>

definition arrow_clause :: "string \<Rightarrow> string \<Rightarrow> string \<Rightarrow> (string \<times> string \<times> string option \<times> string option) option" where
  "arrow_clause g1 g2 s =
     lit ''->'' (\<lambda>s1.
       greedy_star isspace (\<lambda>ws s2.
         greedy_plus (\<lambda>c. True) (\<lambda>g4 s3.
           at_end (g1, g2, Some (''->'' @ ws @ g4), Some g4) s3) s2) [] s1) s"

definition sig_tail :: "string \<Rightarrow> string \<Rightarrow> string \<Rightarrow> (string \<times> string \<times> string option \<times> string option) option" where
  "sig_tail g1 g2 s =
     greedy_star isspace (\<lambda>ws s1.
       (case arrow_clause g1 g2 s1 of
          Some m \<Rightarrow> Some m
        | None \<Rightarrow> at_end (g1, g2, None, None) s1)) [] s"

definition sig_match :: "string \<Rightarrow> (string \<times> string \<times> string option \<times> string option) option" where
  "sig_match sig =
     greedy_plus name_char (\<lambda>g1 s1.
       greedy_star isspace (\<lambda>ws s2.
         lit ''('' (\<lambda>s3.
           lazy_star (\<lambda>c. True) (\<lambda>g2 s4.
             lit '')'' (\<lambda>s5. sig_tail g1 g2 s5) s4) [] s3) s2) [] s1) sig"

subsection \<open>Signatures and examples\<close>

definition format_param :: "string \<Rightarrow> string" where
  \<open>format_param param =
     (case find param '':'' of
        Some colon_idx \<Rightarrow>
          (let pname = strip (take colon_idx param);
               ptype = strip (drop (colon_idx + 1) param)
           in ''<span class="text">'' @ escape pname @ ''</span>''
              @ ''<span class="op">:</span> ''
              @ ''<span class="typ">'' @ escape ptype @ ''</span>'')
      | None \<Rightarrow> ''<span class="text">'' @ escape param @ ''</span>'')\<close>

definition format_signature_html :: "string \<Rightarrow> string" where
  \<open>format_signature_html sig =
     (case sig_match sig of
        None \<Rightarrow> ''<span class="fn">'' @ escape sig @ ''</span>''
      | Some (nm, params_raw, g3, g4) \<Rightarrow>
          (let ret_arrow = (case g3 of Some a \<Rightarrow> a | None \<Rightarrow> []);
               ret_type = (case g4 of Some r \<Rightarrow> r | None \<Rightarrow> []);
               parts = [''<span class="fn">'' @ escape nm @ ''</span>'',
                        ''<span class="text">(</span>''];
               parts = (if strip params_raw \<noteq> []
                        then parts @ [join ''<span class="op">, </span>''
                               (map format_param (map strip (split CHR '','' params_raw)))]
                        else parts);
               parts = parts @ [''<span class="text">)</span>''];
               parts = (if strip ret_type \<noteq> []
                        then parts @ ['' <span class="op">-&gt;</span> <span class="typ">''
                               @ escape (strip ret_type) @ ''</span>'']
                        else parts)
           in concat parts))\<close>

definition format_example_html :: "string \<Rightarrow> string" where
  \<open>format_example_html example =
     (case find example ''//'' of
        Some comment_idx \<Rightarrow>
          (let code_part = escape (take comment_idx example);
               comment_part = escape (drop comment_idx example)
           in code_part @ ''<span class="cmt">'' @ comment_part @ ''</span>'')
      | None \<Rightarrow> escape example)\<close>

subsection \<open>The page\<close>

text \<open>\<^verbatim>\<open>[c for c in categories if c in groups]\<close> and \<^verbatim>\<open>groups[cat]\<close> for such a \<open>cat\<close>.\<close>

definition active_cats :: "groups \<Rightarrow> string list \<Rightarrow> string list" where
  "active_cats gs categories = filter (has_key gs) categories"

definition entries_of :: "groups \<Rightarrow> string \<Rightarrow> DocEntry list" where
  "entries_of gs cat = (case map_of gs cat of Some v \<Rightarrow> v | None \<Rightarrow> [])"

definition sidebar_link :: "groups \<Rightarrow> string \<Rightarrow> string" where
  \<open>sidebar_link gs cat =
     (let anchor = make_anchor cat;
          count = length (entries_of gs cat)
      in ''        <a href="#'' @ anchor @ ''" class="sidebar-link" data-cat="'' @ anchor @ ''">''
         @ escape cat @ ''<span class="sidebar-count">'' @ str_nat count @ ''</span></a>\<newline>'')\<close>

definition sidebar_section :: "groups \<Rightarrow> string \<times> string list \<Rightarrow> string" where
  \<open>sidebar_section gs sec =
     (case sec of (section_name, categories) \<Rightarrow>
        if active_cats gs categories = [] then []
        else ''      <div class="sidebar-section">\<newline>''
             @ ''        <div class="sidebar-heading">'' @ escape section_name @ ''</div>\<newline>''
             @ concat (map (sidebar_link gs) (active_cats gs categories))
             @ ''      </div>\<newline>'')\<close>

definition sidebar_walk :: "groups \<Rightarrow> string" where
  "sidebar_walk gs = concat (map (sidebar_section gs) SECTION_GROUPS)"

definition example_block :: "string \<Rightarrow> string" where
  \<open>example_block ex = ''          <pre><code>'' @ format_example_html ex @ ''</code></pre>\<newline>''\<close>

definition entry_card :: "DocEntry \<Rightarrow> string" where
  \<open>entry_card entry =
     (let entry_anchor = make_anchor (''fn-'' @ name entry);
          sig_html = format_signature_html (signature entry)
      in ''      <div class="doc-entry" id="'' @ entry_anchor
         @ ''" data-name="'' @ escape (lower (name entry))
         @ ''" data-desc="'' @ escape (lower (description entry)) @ ''">\<newline>''
         @ ''        <div class="doc-sig">'' @ sig_html @ ''</div>\<newline>''
         @ (if description entry \<noteq> []
            then ''        <p class="doc-desc">'' @ escape (description entry) @ ''</p>\<newline>''
            else [])
         @ (if examples entry \<noteq> []
            then ''        <div class="doc-examples">\<newline>''
                 @ concat (map example_block (examples entry))
                 @ ''        </div>\<newline>''
            else [])
         @ ''      </div>\<newline>'')\<close>

definition category_block :: "groups \<Rightarrow> string \<Rightarrow> string \<Rightarrow> string" where
  \<open>category_block gs section_name cat =
     (let anchor = make_anchor cat;
          entries = entries_of gs cat
      in ''    <div class="doc-category" id="'' @ anchor @ ''">\<newline>''
         @ ''      <div class="section-label">'' @ escape section_name @ ''</div>\<newline>''
         @ ''      <h2 class="section-title">'' @ escape cat @ ''</h2>\<newline>''
         @ concat (map entry_card entries)
         @ ''    </div>\<newline>'')\<close>

definition content_section :: "groups \<Rightarrow> string \<times> string list \<Rightarrow> string" where
  "content_section gs sec =
     (case sec of (section_name, categories) \<Rightarrow>
        concat (map (category_block gs section_name) (active_cats gs categories)))"

definition content_walk :: "groups \<Rightarrow> string" where
  "content_walk gs = concat (map (content_section gs) SECTION_GROUPS)"

text \<open>The empty state.\<close>

definition empty_content :: string where
  \<open>empty_content =
     ''    <div class="doc-empty">\<newline>''
     @ ''      <div class="doc-empty-icon">&#x25C7;</div>\<newline>''
     @ ''      <h2>No Documentation Yet</h2>\<newline>''
     @ ''      <p>Add <code>/// @builtin</code> or <code>/// @method</code> doc comments to C source files to generate documentation.</p>\<newline>''
     @ ''      <div class="doc-empty-example">\<newline>''
     @ ''        <pre><code><span class="cmt">/// @builtin print(value: Any) -> Unit</span>\<newline>''
     @ ''<span class="cmt">/// @category Core</span>\<newline>''
     @ ''<span class="cmt">/// Prints a value to stdout followed by a newline.</span>\<newline>''
     @ ''<span class="cmt">/// @example print("hello")  // hello</span>\<newline>''
     @ ''if (strcmp(fn_name, "print") == 0) {</code></pre>\<newline>''
     @ ''      </div>\<newline>''
     @ ''    </div>\<newline>''\<close>

definition empty_sidebar :: string where
  \<open>empty_sidebar =
     ''      <div class="sidebar-empty">Add doc comments to source files to see categories here.</div>\<newline>''\<close>

definition sidebar_html :: "groups \<Rightarrow> string" where
  "sidebar_html gs = (if gs = [] then empty_sidebar else sidebar_walk gs)"

definition content_html :: "groups \<Rightarrow> string" where
  "content_html gs = (if gs = [] then empty_content else content_walk gs)"

definition total_entries :: "groups \<Rightarrow> nat" where
  "total_entries gs = sum_list (map (\<lambda>(k, v). length v) gs)"

definition total_categories :: "groups \<Rightarrow> nat" where
  "total_categories gs = length gs"

definition doc_stats :: "groups \<Rightarrow> string" where
  \<open>doc_stats gs =
     ''      <div class="doc-stats">'' @ str_nat (total_entries gs) @ '' functions across ''
     @ str_nat (total_categories gs) @ '' categories</div>\<newline>''\<close>

text \<open>
  The page is one template. Its text before the sidebar (the head, the style sheet and the
  header) and its text after the content (the script) are fixed and hold no field; they are
  the two parameters \<open>page_head\<close> and \<open>page_tail\<close>.
\<close>

definition full_html :: "string \<Rightarrow> string \<Rightarrow> groups \<Rightarrow> string" where
  \<open>full_html page_head page_tail gs =
     page_head
     @ sidebar_html gs
     @ ''  </nav>\<newline>''
     @ ''\<newline>''
     @ ''  <!-- Overlay for mobile sidebar -->\<newline>''
     @ ''  <div class="sidebar-overlay" id="sidebar-overlay"></div>\<newline>''
     @ ''\<newline>''
     @ ''  <!-- Content -->\<newline>''
     @ ''  <main class="doc-content" id="doc-content">\<newline>''
     @ ''    <div class="doc-search-wrap">\<newline>''
     @ ''      <input type="text" id="doc-search" placeholder="Search functions..." autocomplete="off" spellcheck="false">\<newline>''
     @ doc_stats gs
     @ ''    </div>\<newline>''
     @ ''\<newline>''
     @ content_html gs
     @ page_tail\<close>

text \<open>
  \<^verbatim>\<open>generate_html\<close> writes the page to the output path and returns the two counts; here
  it returns the page with them.
\<close>

definition generate_html :: "string \<Rightarrow> string \<Rightarrow> groups \<Rightarrow> string \<times> nat \<times> nat" where
  "generate_html page_head page_tail gs =
     (full_html page_head page_tail gs, total_entries gs, total_categories gs)"

section \<open>Main\<close>

definition main :: "string \<Rightarrow> string \<Rightarrow> listing option \<Rightarrow> string \<times> nat \<times> nat" where
  "main page_head page_tail src_dir =
     (let entries = scan_source_files src_dir;
          gs = group_by_category entries
      in generate_html page_head page_tail gs)"

section \<open>Views of the groups\<close>

text \<open>The groups of the categories that the taxonomy declares.\<close>

definition declared :: "groups \<Rightarrow> groups" where
  "declared gs = filter (\<lambda>(k, v). k \<in> set CATEGORY_ORDER) gs"

section \<open>Views of a directory\<close>

text \<open>The texts of the children that are files and can be read.\<close>

fun readable_text :: "string \<times> node \<Rightarrow> string option" where
  "readable_text (nm, File text) = text"
| "readable_text (nm, Directory children) = None"

text \<open>A child without what is below it: a directory loses its children.\<close>

fun shallow :: "string \<times> node \<Rightarrow> string \<times> node" where
  "shallow (nm, File text) = (nm, File text)"
| "shallow (nm, Directory children) = (nm, Directory [])"

section \<open>The language of the signature pattern\<close>

text \<open>
  What may follow the closing parenthesis: white space and nothing more, or white space,
  an arrow and at least one more character.
\<close>

definition tail_ok :: "string \<Rightarrow> bool" where
  "tail_ok s =
     (let r = dropWhile isspace s in r = [] \<or> (startswith r ''->'' \<and> drop 2 r \<noteq> []))"

text \<open>
  The structural pattern \<^verbatim>\<open>name(params)\<close> with an optional arrow clause: a name, white
  space, the parameters between parentheses, and a tail as above.
\<close>

definition sig_pattern :: "string \<Rightarrow> bool" where
  "sig_pattern sig =
     (\<exists>nm ws params rest.
        sig = nm @ ws @ ''('' @ params @ '')'' @ rest
        \<and> nm \<noteq> [] \<and> list_all name_char nm \<and> list_all isspace ws \<and> tail_ok rest)"

section \<open>Markup of the page\<close>

text \<open>
  Text that is inert in HTML: it holds no \<^verbatim>\<open><\<close>, no \<^verbatim>\<open>>\<close> and no quote, and every
  \<^verbatim>\<open>&\<close> in it starts one of the five references that \<^verbatim>\<open>html.escape\<close> writes.
\<close>

definition entity_names :: "string list" where
  "entity_names = [''amp;'', ''lt;'', ''gt;'', ''quot;'', ''#x27;'']"

fun inert :: "string \<Rightarrow> bool" where
  "inert [] = True"
| "inert (c # cs) =
     (if c = CHR ''&'' then list_ex (startswith cs) entity_names \<and> inert cs
      else c \<noteq> CHR ''<'' \<and> c \<noteq> CHR ''>'' \<and> c \<noteq> CHR 0x22 \<and> c \<noteq> CHR 0x27 \<and> inert cs)"

text \<open>
  The fixed pieces of markup that the renderer writes around the fields: the literal parts
  of its format strings, and the two texts of the empty state.
\<close>

definition template_fragments :: "string list" where
  \<open>template_fragments =
    [''<span class="text">'', ''</span>'', ''<span class="op">:</span> '', ''<span class="typ">'',
     ''<span class="fn">'', ''<span class="text">(</span>'', ''<span class="op">, </span>'',
     ''<span class="text">)</span>'', '' <span class="op">-&gt;</span> <span class="typ">'',
     ''<span class="cmt">'',
     ''        <a href="#'', ''" class="sidebar-link" data-cat="'', ''">'',
     ''<span class="sidebar-count">'', ''</span></a>\<newline>'',
     ''      <div class="sidebar-section">\<newline>'', ''        <div class="sidebar-heading">'',
     ''</div>\<newline>'', ''      </div>\<newline>'',
     ''          <pre><code>'', ''</code></pre>\<newline>'',
     ''      <div class="doc-entry" id="'', ''" data-name="'', ''" data-desc="'', ''">\<newline>'',
     ''        <div class="doc-sig">'', ''        <p class="doc-desc">'', ''</p>\<newline>'',
     ''        <div class="doc-examples">\<newline>'', ''        </div>\<newline>'',
     ''    <div class="doc-category" id="'', ''      <div class="section-label">'',
     ''      <h2 class="section-title">'', ''</h2>\<newline>'', ''    </div>\<newline>'',
     ''      <div class="doc-stats">'', '' categories</div>\<newline>'',
     empty_content, empty_sidebar]\<close>

text \<open>
  A text is templated when it is made of such pieces and of inert text only: all its markup
  is the template's.
\<close>

definition templated :: "string \<Rightarrow> bool" where
  "templated s =
     (\<exists>ps. s = concat ps \<and> list_all (\<lambda>p. p \<in> set template_fragments \<or> inert p) ps)"

section \<open>Properties of the string operations\<close>

lemma code_char_of: "n < 256 \<Longrightarrow> code (char_of n) = n"
  by (simp add: code_def)

lemma code_inj: "code c = code d \<longleftrightarrow> c = d"
  by (simp add: code_def)

lemma code_us: "code (CHR ''_'') = 95" "code (CHR ''-'') = 45"
  by (simp_all add: code_def)

lemma lower_char_anchor: "anchor_char c \<Longrightarrow> anchor_out_char (lower_char c)"
  unfolding anchor_char_def anchor_out_char_def lower_char_def ascii_upper_def ascii_lower_def ascii_digit_def
  by (auto simp: code_char_of code_us simp flip: code_inj)

lemma lower_char_out: "anchor_out_char c \<Longrightarrow> lower_char c = c"
  unfolding anchor_out_char_def lower_char_def ascii_upper_def ascii_lower_def ascii_digit_def
  by (auto simp: code_char_of code_us simp flip: code_inj)

lemma out_anchor: "anchor_out_char c \<Longrightarrow> anchor_char c"
  unfolding anchor_out_char_def anchor_char_def by auto

lemma dropWhile_hd: "dropWhile P xs = [] \<or> \<not> P (hd (dropWhile P xs))"
  by (metis hd_dropWhile)

lemma strip_where_ends:
  "strip_where P xs = [] \<or> (\<not> P (hd (strip_where P xs)) \<and> \<not> P (last (strip_where P xs)))"
proof -
  define ys where "ys = dropWhile P xs"
  define zs where "zs = dropWhile P (rev ys)"
  have s: "strip_where P xs = rev zs" by (simp add: strip_where_def ys_def zs_def)
  show ?thesis
  proof (cases "zs = []")
    case True then show ?thesis by (simp add: s)
  next
    case False
    have l: "\<not> P (hd zs)" using False unfolding zs_def by (metis hd_dropWhile)
    have "ys \<noteq> []" using False unfolding zs_def by auto
    then have h: "\<not> P (hd ys)" unfolding ys_def by (metis hd_dropWhile)
    obtain ps where "rev ys = ps @ zs" unfolding zs_def by (metis takeWhile_dropWhile_id)
    then have "ys = rev zs @ rev ps" by (metis rev_append rev_rev_ident)
    then have "hd (rev zs) = hd ys" using False by simp
    with h l False show ?thesis by (simp add: s last_rev)
  qed
qed

lemma strip_where_fix:
  assumes "xs = [] \<or> (\<not> P (hd xs) \<and> \<not> P (last xs))"
  shows "strip_where P xs = xs"
proof (cases xs)
  case Nil then show ?thesis by (simp add: strip_where_def)
next
  case (Cons a as)
  with assms have a: "\<not> P a" and l: "\<not> P (last xs)" by auto
  have 1: "dropWhile P xs = xs" using a Cons by simp
  obtain b bs where r: "rev xs = b # bs" using Cons by (cases "rev xs") auto
  then have "b = last xs" using Cons by (metis hd_rev list.sel(1))
  then have "dropWhile P (rev xs) = rev xs" using l unfolding r by simp
  with 1 show ?thesis by (simp add: strip_where_def)
qed

lemma strip_where_idem: "strip_where P (strip_where P xs) = strip_where P xs"
  by (rule strip_where_fix) (rule strip_where_ends)

lemma set_strip_where: "set (strip_where P xs) \<subseteq> set xs"
  unfolding strip_where_def by (metis set_rev set_dropWhileD subsetI)

lemma anchor_chars: "list_all anchor_out_char (make_anchor s)"
proof -
  have "list_all anchor_out_char (lower (map (\<lambda>c. if anchor_char c then c else CHR ''-'') s))"
    by (induction s) (auto simp: lower_def lower_char_anchor anchor_char_def)
  then show ?thesis
    unfolding make_anchor_def strip_chars_def list_all_iff using set_strip_where by blast
qed

lemma anchor_fix_pre:
  "list_all anchor_out_char xs \<Longrightarrow> lower (map (\<lambda>c. if anchor_char c then c else CHR ''-'') xs) = xs"
  by (induction xs) (auto simp: lower_def lower_char_out out_anchor)

section \<open>The anchor generator is idempotent\<close>

text \<open>
  Claim C7. The anchor generator is idempotent: applied to its own output it returns that
  output unchanged. Every output consists of characters of \<^verbatim>\<open>[a-z0-9_-]\<close> only and has
  no leading and no trailing \<^verbatim>\<open>-\<close>.
\<close>

theorem make_anchor_idempotent:
  "make_anchor (make_anchor s) = make_anchor s
   \<and> list_all anchor_out_char (make_anchor s)
   \<and> \<not> startswith (make_anchor s) ''-'' \<and> \<not> endswith (make_anchor s) ''-''"
proof -
  let ?P = "\<lambda>c. c \<in> set ''-''"
  let ?a = "make_anchor s"
  have e: "?a = [] \<or> (\<not> ?P (hd ?a) \<and> \<not> ?P (last ?a))"
    unfolding make_anchor_def strip_chars_def by (rule strip_where_ends)
  have "make_anchor ?a = strip_where ?P ?a"
    by (simp add: make_anchor_def [of ?a] strip_chars_def anchor_fix_pre [OF anchor_chars])
  also have "\<dots> = ?a" using e by (rule strip_where_fix)
  finally have i: "make_anchor ?a = ?a" .
  have s: "\<not> startswith ?a ''-''" using e by (cases ?a) (auto simp: startswith_def)
  have "\<not> endswith ?a ''-''" using e
    by (cases "rev ?a") (auto simp: endswith_def startswith_def last_rev hd_rev dest: arg_cong [where f = hd])
  with i s anchor_chars show ?thesis by simp
qed

theorem make_anchor_idempotent_witness:
  "make_anchor ''Date & Time'' = ''date---time''
   \<and> make_anchor ''date---time'' = ''date---time''
   \<and> list_all anchor_out_char ''date---time''"
  using make_anchor_idempotent [of "''Date & Time''"]
  by code_simp

section \<open>Parsing one block\<close>

lemma parse_lines_skip:
  "\<forall>l\<in>set pre. \<not> block_start (strip l) \<Longrightarrow> parse_lines (pre @ rest) = parse_lines rest"
  by (induction pre) simp_all

lemma read_block_stop:
  "post = [] \<or> \<not> startswith (strip (hd post)) ''///'' \<Longrightarrow> read_block e d post = (e, d, post)"
  by (cases post) simp_all

lemma strip_ends: "s \<noteq> [] \<Longrightarrow> strip s = s \<Longrightarrow> \<not> isspace (hd s) \<and> \<not> isspace (last s)"
  using strip_where_ends [of isspace s] by (simp add: strip_def)

lemma strip_fix: "s \<noteq> [] \<Longrightarrow> \<not> isspace (hd s) \<Longrightarrow> \<not> isspace (last s) \<Longrightarrow> strip s = s"
  unfolding strip_def by (rule strip_where_fix) simp

text \<open>A tag before a text that has no white space around it.\<close>

lemma strip_tagged:
  assumes "s \<noteq> []" "strip s = s" "t \<noteq> []" "\<not> isspace (hd t)"
  shows "strip (t @ s) = t @ s"
  using assms strip_ends [OF assms(1,2)] by (intro strip_fix) simp_all

lemma strip_leading_space: "strip s = s \<Longrightarrow> strip (CHR '' '' # s) = s"
proof -
  assume s: "strip s = s"
  have "isspace CHR '' ''" by (simp add: isspace_def code_def)
  then have "strip (CHR '' '' # s) = strip s" by (simp add: strip_def strip_where_def)
  with s show ?thesis by simp
qed

lemma replace_absent: "old \<noteq> [] \<Longrightarrow> \<not> contains old s \<Longrightarrow> replace old new s = s"
  by (induction s) simp_all

lemma find_first: "c \<notin> set f \<Longrightarrow> find (f @ c # rest) [c] = Some (length f)"
  by (induction f) (auto simp: startswith_def)

lemma not_space_slash: "\<not> isspace CHR ''/''" "\<not> isspace CHR ''@''"
  by (simp_all add: isspace_def code_def)

text \<open>What the parser reads from each kind of line.\<close>

lemma start_builtin:
  assumes "sg = f @ ''('' @ args" "CHR ''('' \<notin> set f" "strip f = f" "strip sg = sg"
    "\<not> contains ''@builtin'' sg"
  shows "strip (''/// @builtin '' @ sg) = ''/// @builtin '' @ sg"
    and "block_start (''/// @builtin '' @ sg)"
    and "start_entry (''/// @builtin '' @ sg)
           = new_entry\<lparr>kind := ''builtin'', signature := sg, name := f\<rparr>"
proof -
  have ne: "sg \<noteq> []" using assms(1) by simp
  show "strip (''/// @builtin '' @ sg) = ''/// @builtin '' @ sg"
    using ne assms(4) by (intro strip_tagged) (simp_all add: not_space_slash)
  show "block_start (''/// @builtin '' @ sg)"
    by (simp add: block_start_def startswith_def)
  have "strip (''@builtin '' @ sg) = ''@builtin '' @ sg"
    using ne assms(4) by (intro strip_tagged) (simp_all add: not_space_slash)
  then have c: "strip (drop 3 (''/// @builtin '' @ sg)) = ''@builtin '' @ sg"
    using strip_leading_space [of "''@builtin '' @ sg"] by simp
  have r: "replace ''@builtin'' [] (''@builtin '' @ sg) = CHR '' '' # sg"
    using replace_absent [OF _ assms(5), of "[]"] by (simp add: startswith_def)
  have s: "strip (CHR '' '' # sg) = sg" using assms(4) by (rule strip_leading_space)
  have k: "contains ''@builtin'' (''@builtin '' @ sg)" by (simp add: startswith_def)
  have n: "find sg ''('' = Some (length f)"
    unfolding assms(1) using find_first [OF assms(2)] by simp
  have t: "take (length f) sg = f" unfolding assms(1) by simp
  show "start_entry (''/// @builtin '' @ sg)
           = new_entry\<lparr>kind := ''builtin'', signature := sg, name := f\<rparr>"
    unfolding start_entry_def c Let_def using k by (simp only: if_True r s) (simp add: n t assms(3))
qed

lemma read_category:
  assumes "cat \<noteq> []" "strip cat = cat" "\<not> contains ''@category'' cat"
  shows "read_block e d ((''/// @category '' @ cat) # ls) = read_block (e\<lparr>category := cat\<rparr>) d ls"
proof -
  have l: "strip (''/// @category '' @ cat) = ''/// @category '' @ cat"
    using assms(1,2) by (intro strip_tagged) (simp_all add: not_space_slash)
  have "strip (''@category '' @ cat) = ''@category '' @ cat"
    using assms(1,2) by (intro strip_tagged) (simp_all add: not_space_slash)
  then have c: "strip (drop 3 (''/// @category '' @ cat)) = ''@category '' @ cat"
    using strip_leading_space [of "''@category '' @ cat"] by simp
  have r: "replace ''@category'' [] (''@category '' @ cat) = CHR '' '' # cat"
    using replace_absent [OF _ assms(3), of "[]"] by (simp add: startswith_def)
  have s: "strip (CHR '' '' # cat) = cat" using assms(2) by (rule strip_leading_space)
  have k: "startswith (''/// @category '' @ cat) ''///''"
    "startswith (''@category '' @ cat) ''@category''"
    by (simp_all add: startswith_def)
  show ?thesis
    unfolding read_block.simps l Let_def c using k by (simp only: if_True not_True_eq_False if_False r s)
qed

lemma read_example:
  assumes "ex \<noteq> []" "strip ex = ex" "\<not> contains ''@example'' ex"
  shows "read_block e d ((''/// @example '' @ ex) # ls)
           = read_block (e\<lparr>examples := examples e @ [ex]\<rparr>) d ls"
proof -
  have l: "strip (''/// @example '' @ ex) = ''/// @example '' @ ex"
    using assms(1,2) by (intro strip_tagged) (simp_all add: not_space_slash)
  have "strip (''@example '' @ ex) = ''@example '' @ ex"
    using assms(1,2) by (intro strip_tagged) (simp_all add: not_space_slash)
  then have c: "strip (drop 3 (''/// @example '' @ ex)) = ''@example '' @ ex"
    using strip_leading_space [of "''@example '' @ ex"] by simp
  have r: "replace ''@example'' [] (''@example '' @ ex) = CHR '' '' # ex"
    using replace_absent [OF _ assms(3), of "[]"] by (simp add: startswith_def)
  have s: "strip (CHR '' '' # ex) = ex" using assms(2) by (rule strip_leading_space)
  have k: "startswith (''/// @example '' @ ex) ''///''"
    "\<not> startswith (''@example '' @ ex) ''@category''"
    "startswith (''@example '' @ ex) ''@example''"
    by (simp_all add: startswith_def)
  show ?thesis
    unfolding read_block.simps l Let_def c using k by (simp only: if_True not_True_eq_False if_False r s)
qed

lemma read_description:
  assumes "desc \<noteq> []" "strip desc = desc" "\<not> startswith desc ''@category''"
    "\<not> startswith desc ''@example''"
  shows "read_block e d ((''/// '' @ desc) # ls) = read_block e (d @ [desc]) ls"
proof -
  have l: "strip (''/// '' @ desc) = ''/// '' @ desc"
    using assms(1,2) by (intro strip_tagged) (simp_all add: not_space_slash)
  have c: "strip (drop 3 (''/// '' @ desc)) = desc"
    using strip_leading_space [OF assms(2)] by simp
  have k: "startswith (''/// '' @ desc) ''///''" by (simp add: startswith_def)
  show ?thesis
    unfolding read_block.simps l Let_def c using k assms(1,3,4)
    by (simp only: if_True not_True_eq_False if_False not_False_eq_True)
qed

text \<open>
  Claim C2. Parsing a source text that contains a block made of the line
  \<^verbatim>\<open>/// @builtin\<close> with a signature \<^verbatim>\<open>f(...)\<close>, followed by a line
  \<^verbatim>\<open>/// @category\<close> with a category, a line \<^verbatim>\<open>///\<close> with a description and a line
  \<^verbatim>\<open>/// @example\<close> with an example, yields exactly one entry: of kind builtin, with
  that signature, the name \<open>f\<close> before its first parenthesis, that category, that
  description and that one example. This holds for every signature, category, description
  and example that are not empty, have no white space around them and do not hold the tag
  of their own line (the description starting with no tag); so for
  \<^verbatim>\<open>f(x: T) -> R\<close>, \<^verbatim>\<open>C\<close>, \<^verbatim>\<open>desc\<close> and \<^verbatim>\<open>f(1)  // ok\<close>. The text may hold
  lines before and after the block, none of which starts a block, the line after the block
  being no comment line of it.
\<close>

theorem parse_builtin_block:
  assumes "split CHR ''\<newline>'' source_text
             = pre @ [''/// @builtin '' @ sg, ''/// @category '' @ cat, ''/// '' @ desc,
                      ''/// @example '' @ ex] @ post"
    and "\<forall>l\<in>set (pre @ post). \<not> block_start (strip l)"
    and "post = [] \<or> \<not> startswith (strip (hd post)) ''///''"
    and "sg = f @ ''('' @ args" "CHR ''('' \<notin> set f" "strip f = f" "strip sg = sg"
      "\<not> contains ''@builtin'' sg"
    and "cat \<noteq> []" "strip cat = cat" "\<not> contains ''@category'' cat"
    and "desc \<noteq> []" "strip desc = desc" "\<not> startswith desc ''@category''"
      "\<not> startswith desc ''@example''"
    and "ex \<noteq> []" "strip ex = ex" "\<not> contains ''@example'' ex"
  shows "parse_doc_blocks source_text
           = [\<lparr>kind = ''builtin'', signature = sg, name = f, category = cat,
                description = desc, examples = [ex]\<rparr>]"
proof -
  let ?h = "''/// @builtin '' @ sg"
  let ?l2 = "''/// @category '' @ cat"
  let ?l3 = "''/// '' @ desc"
  let ?l4 = "''/// @example '' @ ex"
  let ?e = "new_entry\<lparr>kind := ''builtin'', signature := sg, name := f\<rparr>"
  let ?e2 = "?e\<lparr>category := cat\<rparr>"
  let ?e4 = "?e2\<lparr>examples := examples ?e2 @ [ex]\<rparr>"
  note h = start_builtin [OF assms(4-8)]
  have "read_block ?e [] (?l2 # ?l3 # ?l4 # post) = read_block ?e2 [] (?l3 # ?l4 # post)"
    by (rule read_category [OF assms(9-11)])
  also have "\<dots> = read_block ?e2 ([] @ [desc]) (?l4 # post)"
    by (rule read_description [OF assms(12-15)])
  also have "\<dots> = read_block ?e4 ([] @ [desc]) post"
    by (rule read_example [OF assms(16-18)])
  also have "\<dots> = (?e4, [] @ [desc], post)"
    by (rule read_block_stop [OF assms(3)])
  finally have body: "read_block (start_entry (strip ?h)) [] (?l2 # ?l3 # ?l4 # post)
      = (?e4, [] @ [desc], post)"
    unfolding h(1) h(3) .
  have post: "parse_lines post = []"
    using parse_lines_skip [of post "[]"] assms(2) by simp
  have "parse_lines (?h # ?l2 # ?l3 # ?l4 # post)
      = [?e4\<lparr>description := join '' '' ([] @ [desc])\<rparr>]"
    unfolding parse_lines.simps(2) [of ?h] body using h(2)
    by (simp only: h(1) if_True prod.case post)
  also have "\<dots> = [\<lparr>kind = ''builtin'', signature = sg, name = f, category = cat,
                description = desc, examples = [ex]\<rparr>]"
    by (simp add: new_entry_def)
  finally have block: "parse_lines (?h # ?l2 # ?l3 # ?l4 # post)
      = [\<lparr>kind = ''builtin'', signature = sg, name = f, category = cat,
                description = desc, examples = [ex]\<rparr>]" .
  have "split CHR ''\<newline>'' source_text = pre @ (?h # ?l2 # ?l3 # ?l4 # post)"
    unfolding assms(1) by simp
  moreover have "parse_lines (pre @ (?h # ?l2 # ?l3 # ?l4 # post))
      = parse_lines (?h # ?l2 # ?l3 # ?l4 # post)"
    using assms(2) by (intro parse_lines_skip) simp
  ultimately show ?thesis
    unfolding parse_doc_blocks_def using block by (simp only:)
qed

theorem parse_builtin_block_witness:
  "parse_doc_blocks
     ''int x;\<newline>/// @builtin f(x: T) -> R\<newline>/// @category C\<newline>/// desc\<newline>/// @example f(1)  // ok\<newline>if (y) {''
   = [\<lparr>kind = ''builtin'', signature = ''f(x: T) -> R'', name = ''f'', category = ''C'',
        description = ''desc'', examples = [''f(1)  // ok'']\<rparr>]
   \<and> parse_doc_blocks
     ''/// @builtin print(value: Any) -> Unit\<newline>/// @category Core\<newline>/// Prints a value to stdout followed by a newline.\<newline>/// @example print(\"hello\")  // hello''
   = [\<lparr>kind = ''builtin'', signature = ''print(value: Any) -> Unit'', name = ''print'',
        category = ''Core'', description = ''Prints a value to stdout followed by a newline.'',
        examples = [''print(\"hello\")  // hello'']\<rparr>]"
proof (rule conjI)
  show "parse_doc_blocks
     ''int x;\<newline>/// @builtin f(x: T) -> R\<newline>/// @category C\<newline>/// desc\<newline>/// @example f(1)  // ok\<newline>if (y) {''
   = [\<lparr>kind = ''builtin'', signature = ''f(x: T) -> R'', name = ''f'', category = ''C'',
        description = ''desc'', examples = [''f(1)  // ok'']\<rparr>]"
    by (rule parse_builtin_block [where pre = "[''int x;'']" and post = "[''if (y) {'']"
          and f = "''f''" and args = "''x: T) -> R''"]; code_simp)
  show "parse_doc_blocks
     ''/// @builtin print(value: Any) -> Unit\<newline>/// @category Core\<newline>/// Prints a value to stdout followed by a newline.\<newline>/// @example print(\"hello\")  // hello''
   = [\<lparr>kind = ''builtin'', signature = ''print(value: Any) -> Unit'', name = ''print'',
        category = ''Core'', description = ''Prints a value to stdout followed by a newline.'',
        examples = [''print(\"hello\")  // hello'']\<rparr>]"
    by (rule parse_builtin_block [where pre = "[]" and post = "[]"
          and f = "''print''" and args = "''value: Any) -> Unit''"]; code_simp)
qed

section \<open>Footer statistics\<close>

lemma has_key_declared: "c \<in> set CATEGORY_ORDER \<Longrightarrow> has_key (declared gs) c = has_key gs c"
  by (induction gs) (auto simp: has_key_def declared_def)

lemma entries_of_declared: "c \<in> set CATEGORY_ORDER \<Longrightarrow> entries_of (declared gs) c = entries_of gs c"
  by (induction gs) (auto simp: entries_of_def declared_def)

lemma section_cats: "(s, cs) \<in> set SECTION_GROUPS \<Longrightarrow> set cs \<subseteq> set CATEGORY_ORDER"
  by (auto simp: CATEGORY_ORDER_def)

lemma active_cats_declared:
  "set cs \<subseteq> set CATEGORY_ORDER \<Longrightarrow> active_cats (declared gs) cs = active_cats gs cs"
  unfolding active_cats_def by (rule filter_cong) (auto simp: has_key_declared)

lemma active_cats_sub: "set (active_cats gs cs) \<subseteq> set cs"
  by (auto simp: active_cats_def)

lemma sidebar_section_declared:
  assumes "sec \<in> set SECTION_GROUPS"
  shows "sidebar_section (declared gs) sec = sidebar_section gs sec"
proof -
  obtain s cs where sec: "sec = (s, cs)" by (cases sec)
  with assms have sub: "set cs \<subseteq> set CATEGORY_ORDER" using section_cats by blast
  have "concat (map (sidebar_link (declared gs)) (active_cats gs cs))
      = concat (map (sidebar_link gs) (active_cats gs cs))"
    using sub active_cats_sub [of gs cs]
    by (intro arg_cong [where f = concat] map_cong refl) (auto simp: sidebar_link_def entries_of_declared)
  then show ?thesis
    by (simp add: sec sidebar_section_def active_cats_declared [OF sub])
qed

lemma content_section_declared:
  assumes "sec \<in> set SECTION_GROUPS"
  shows "content_section (declared gs) sec = content_section gs sec"
proof -
  obtain s cs where sec: "sec = (s, cs)" by (cases sec)
  with assms have sub: "set cs \<subseteq> set CATEGORY_ORDER" using section_cats by blast
  have "concat (map (category_block (declared gs) s) (active_cats gs cs))
      = concat (map (category_block gs s) (active_cats gs cs))"
    using sub active_cats_sub [of gs cs]
    by (intro arg_cong [where f = concat] map_cong refl) (auto simp: category_block_def entries_of_declared)
  then show ?thesis
    by (simp add: sec content_section_def active_cats_declared [OF sub])
qed

lemma walks_declared:
  "sidebar_walk (declared gs) = sidebar_walk gs" "content_walk (declared gs) = content_walk gs"
  unfolding sidebar_walk_def content_walk_def
  by (auto intro!: arg_cong [where f = concat] map_cong simp: sidebar_section_declared content_section_declared)

lemma total_entries_map:
  "distinct (map fst gs) \<Longrightarrow> total_entries gs = (\<Sum>k \<in> set (map fst gs). length (entries_of gs k))"
proof (induction gs)
  case Nil
  then show ?case by (simp add: total_entries_def)
next
  case (Cons g gs)
  obtain k v where g: "g = (k, v)" by (cases g)
  from Cons.prems g have nk: "k \<notin> fst ` set gs" and d: "distinct (map fst gs)" by auto
  have "(\<Sum>c \<in> set (map fst gs). length (entries_of (g # gs) c)) = (\<Sum>c \<in> set (map fst gs). length (entries_of gs c))"
    using nk by (intro sum.cong refl) (auto simp: entries_of_def g)
  moreover have "total_entries (g # gs) = length v + total_entries gs"
    by (simp add: total_entries_def g)
  moreover have "(\<Sum>c \<in> set (map fst (g # gs)). length (entries_of (g # gs) c))
      = length (entries_of (g # gs) k) + (\<Sum>c \<in> set (map fst gs). length (entries_of (g # gs) c))"
    using nk by (simp add: g)
  moreover have "entries_of (g # gs) k = v" by (simp add: entries_of_def g)
  ultimately show ?case using Cons.IH [OF d] by simp
qed

text \<open>
  Claim C1. For every grouped-entry mapping passed to the renderer, the footer statistics
  report as total entry count the sum of the lengths of the entry lists of all keys and as
  total category count the number of keys. Categories that the taxonomy does not declare
  are counted too, although the sidebar walk and the content walk emit nothing for them:
  both walks are those of the declared categories alone.
\<close>

theorem footer_statistics:
  assumes "distinct (map fst gs)"
  shows \<open>snd (generate_html page_head page_tail gs)
           = (sum_list (map (\<lambda>k. length (entries_of gs k)) (map fst gs)), card (set (map fst gs)))
         \<and> (\<exists>before after. fst (generate_html page_head page_tail gs)
               = before @ str_nat (sum_list (map (\<lambda>k. length (entries_of gs k)) (map fst gs)))
                 @ '' functions across '' @ str_nat (card (set (map fst gs))) @ '' categories'' @ after)
         \<and> sidebar_walk gs = sidebar_walk (declared gs)
         \<and> content_walk gs = content_walk (declared gs)\<close>
proof -
  have e: "total_entries gs = sum_list (map (\<lambda>k. length (entries_of gs k)) (map fst gs))"
    by (simp only: total_entries_map [OF assms] sum_list_distinct_conv_sum_set [OF assms])
  have c: "total_categories gs = card (set (map fst gs))"
    using assms by (metis total_categories_def distinct_card length_map)
  have \<open>full_html page_head page_tail gs
      = (page_head @ sidebar_html gs @ ''  </nav>\<newline>'' @ ''\<newline>''
     @ ''  <!-- Overlay for mobile sidebar -->\<newline>''
     @ ''  <div class="sidebar-overlay" id="sidebar-overlay"></div>\<newline>''
     @ ''\<newline>''
     @ ''  <!-- Content -->\<newline>''
     @ ''  <main class="doc-content" id="doc-content">\<newline>''
     @ ''    <div class="doc-search-wrap">\<newline>''
     @ ''      <input type="text" id="doc-search" placeholder="Search functions..." autocomplete="off" spellcheck="false">\<newline>''
     @ ''      <div class="doc-stats">'')
       @ str_nat (total_entries gs) @ '' functions across '' @ str_nat (total_categories gs)
       @ '' categories'' @ (''</div>\<newline>'' @ ''    </div>\<newline>'' @ ''\<newline>'' @ content_html gs @ page_tail)\<close>
    unfolding full_html_def doc_stats_def by simp
  then have "\<exists>before after. full_html page_head page_tail gs
      = before @ str_nat (total_entries gs) @ '' functions across '' @ str_nat (total_categories gs) @ '' categories'' @ after"
    by blast
  then show ?thesis
    unfolding e [symmetric] c [symmetric]
    by (simp add: generate_html_def walks_declared)
qed


theorem footer_statistics_witness:
  "snd (generate_html ''<html>'' ''</html>''
       [(''Core'', [new_entry]), (''Zed'', [new_entry, new_entry])]) = (3, 2)
   \<and> sidebar_walk [(''Core'', [new_entry]), (''Zed'', [new_entry, new_entry])]
       = sidebar_walk [(''Core'', [new_entry])]
   \<and> content_walk [(''Core'', [new_entry]), (''Zed'', [new_entry, new_entry])]
       = content_walk [(''Core'', [new_entry])]"
proof -
  let ?gs = "[(''Core'', [new_entry]), (''Zed'', [new_entry, new_entry])]"
  have d: "distinct (map fst ?gs)" by simp
  have k: "declared ?gs = [(''Core'', [new_entry])]"
    by (simp add: declared_def CATEGORY_ORDER_def SECTION_GROUPS_def)
  show ?thesis
    using footer_statistics [OF d, of "''<html>''" "''</html>''"] unfolding k
    by (simp add: entries_of_def)
qed

section \<open>A missing source directory\<close>

lemma group_none: "group_by_category [] = []"
  by (simp add: group_by_category_def CATEGORY_ORDER_def SECTION_GROUPS_def)

text \<open>
  Claim C8. If the source directory does not exist, scanning returns no entry and the run
  goes on: the page is written, with the fixed placeholder of the empty state as content and
  the fixed message as sidebar, no navigation section and no entry card, and both counts
  are 0.
\<close>

theorem missing_directory:
  \<open>scan_source_files None = []
   \<and> group_by_category (scan_source_files None) = []
   \<and> main page_head page_tail None =
       (page_head
        @ ''      <div class="sidebar-empty">Add doc comments to source files to see categories here.</div>\<newline>''
        @ ''  </nav>\<newline>''
        @ ''\<newline>''
        @ ''  <!-- Overlay for mobile sidebar -->\<newline>''
        @ ''  <div class="sidebar-overlay" id="sidebar-overlay"></div>\<newline>''
        @ ''\<newline>''
        @ ''  <!-- Content -->\<newline>''
        @ ''  <main class="doc-content" id="doc-content">\<newline>''
        @ ''    <div class="doc-search-wrap">\<newline>''
        @ ''      <input type="text" id="doc-search" placeholder="Search functions..." autocomplete="off" spellcheck="false">\<newline>''
        @ ''      <div class="doc-stats">0 functions across 0 categories</div>\<newline>''
        @ ''    </div>\<newline>''
        @ ''\<newline>''
        @ empty_content
        @ page_tail, 0, 0)
   \<and> sidebar_walk (group_by_category (scan_source_files None)) = []
   \<and> content_walk (group_by_category (scan_source_files None)) = []\<close>
proof -
  have w: "sidebar_walk [] = []" "content_walk [] = []"
    by (simp_all add: sidebar_walk_def content_walk_def sidebar_section_def content_section_def
        active_cats_def has_key_def SECTION_GROUPS_def)
  have s: "str_nat 0 = ''0''" by code_simp
  show ?thesis
    by (simp add: group_none w main_def generate_html_def full_html_def sidebar_html_def
        content_html_def empty_sidebar_def doc_stats_def total_entries_def total_categories_def s)
qed

section \<open>The source scanner\<close>

lemma file_entries_text:
  "file_entries ch = (case readable_text ch of Some text \<Rightarrow> parse_doc_blocks text | None \<Rightarrow> [])"
  by (cases ch rule: file_entries.cases) simp_all

lemma concat_file_entries:
  "concat (map file_entries chs) = concat (map parse_doc_blocks (List.map_filter readable_text chs))"
  by (induction chs) (auto simp: file_entries_text List.map_filter_simps split: option.splits)

lemma file_entries_shallow: "file_entries (shallow ch) = file_entries ch"
  by (cases ch rule: file_entries.cases) simp_all

lemma fst_shallow: "fst (shallow ch) = fst ch"
  by (cases ch rule: shallow.cases) simp_all

lemma glob_c_shallow: "glob_c (map shallow chs) = map shallow (glob_c chs)"
  by (induction chs) (auto simp: glob_c_def fst_shallow split: prod.splits dest: arg_cong [where f = fst])

lemma sort_key_map_same_key:
  "(\<And>x. f (g x) = f x) \<Longrightarrow> sort_key f (map g xs) = map g (sort_key f xs)"
proof (induction xs)
  case Nil then show ?case by simp
next
  case (Cons x xs)
  have ins: "insort_key f (g x) (map g ys) = map g (insort_key f x ys)" for ys
    by (induction ys) (auto simp: Cons.prems)
  show ?case using Cons by (simp add: ins)
qed

lemma scan_shallow: "scan_source_files (Some (map shallow chs)) = scan_source_files (Some chs)"
proof -
  have "sort_key fst (map shallow (glob_c chs)) = map shallow (sort_key fst (glob_c chs))"
    by (rule sort_key_map_same_key) (rule fst_shallow)
  then show ?thesis
    by (simp add: c_files_def glob_c_shallow comp_def file_entries_shallow)
qed

text \<open>
  Claim C10. The source scanner considers exactly the children of the given directory whose
  names end in \<^verbatim>\<open>.c\<close>, in sorted order of their names, and concatenates in that order
  the entries of those that are readable files. What lies below a subdirectory plays no
  part: the result is the same when every subdirectory is emptied.
\<close>

theorem scan_c_files_sorted:
  "mset (c_files children) = filter_mset (\<lambda>(nm, nd). endswith nm ''.c'') (mset children)
   \<and> sorted (map fst (c_files children))
   \<and> scan_source_files (Some children)
       = concat (map parse_doc_blocks (List.map_filter readable_text (c_files children)))
   \<and> scan_source_files (Some (map shallow children)) = scan_source_files (Some children)"
proof -
  have "mset (c_files children) = filter_mset (\<lambda>(nm, nd). endswith nm ''.c'') (mset children)"
    by (simp add: c_files_def glob_c_def)
  moreover have "sorted (map fst (c_files children))" by (simp add: c_files_def)
  moreover have "scan_source_files (Some children)
      = concat (map parse_doc_blocks (List.map_filter readable_text (c_files children)))"
    by (simp add: concat_file_entries)
  ultimately show ?thesis using scan_shallow by blast
qed

theorem scan_c_files_sorted_witness:
  "map fst (c_files
      [(''b.c'', File (Some ''/// @builtin b'')), (''a.c'', File (Some ''/// @builtin a'')),
       (''c.h'', File (Some ''/// @builtin h'')),
       (''d.c'', Directory [(''e.c'', File (Some ''/// @builtin e''))]), (''B.c'', File None)])
     = [''B.c'', ''a.c'', ''b.c'', ''d.c'']
   \<and> map name (scan_source_files (Some
      [(''b.c'', File (Some ''/// @builtin b'')), (''a.c'', File (Some ''/// @builtin a'')),
       (''c.h'', File (Some ''/// @builtin h'')),
       (''d.c'', Directory [(''e.c'', File (Some ''/// @builtin e''))]), (''B.c'', File None)]))
     = [''a'', ''b'']"
  using scan_c_files_sorted [of
      "[(''b.c'', File (Some ''/// @builtin b'')), (''a.c'', File (Some ''/// @builtin a'')),
       (''c.h'', File (Some ''/// @builtin h'')),
       (''d.c'', Directory [(''e.c'', File (Some ''/// @builtin e''))]), (''B.c'', File None)]"]
  by code_simp

section \<open>Determinism of the pipeline\<close>

lemma filter_same_key:
  "distinct (map f xs) \<Longrightarrow> k \<in> set xs \<Longrightarrow> filter (\<lambda>x. f k = f x) xs = [k]"
proof (induction xs)
  case Nil then show ?case by simp
next
  case (Cons x xs)
  show ?case
  proof (cases "k = x")
    case True
    have "filter (\<lambda>y. f x = f y) xs = []" using Cons.prems(1) by (auto simp: filter_empty_conv)
    with True show ?thesis by simp
  next
    case False
    with Cons.prems have "k \<in> set xs" "f k \<noteq> f x" by (auto simp: image_iff)
    with Cons show ?thesis by simp
  qed
qed

lemma sort_key_unique:
  assumes "mset xs = mset ys" "distinct (map f xs)"
  shows "sort_key f xs = sort_key f ys"
proof (rule properties_for_sort_key)
  show "mset (sort_key f ys) = mset xs" using assms by simp
  show "sorted (map f (sort_key f ys))" by simp
  fix k assume "k \<in> set (sort_key f ys)"
  then have k: "k \<in> set xs" using assms(1) by (metis mset_eq_setD set_sort)
  have "mset (map f (sort_key f ys)) = mset (map f xs)" using assms(1) by simp
  then have d: "distinct (map f (sort_key f ys))" using assms(2) by (metis mset_eq_imp_distinct_iff)
  have "filter (\<lambda>x. f k = f x) xs = [k]" using assms(2) k by (rule filter_same_key)
  moreover have "filter (\<lambda>x. f k = f x) (sort_key f ys) = [k]"
    using d \<open>k \<in> set (sort_key f ys)\<close> by (rule filter_same_key)
  ultimately show "filter (\<lambda>x. f k = f x) (sort_key f ys) = filter (\<lambda>x. f k = f x) xs" by simp
qed

lemma distinct_glob_c: "distinct (map fst chs) \<Longrightarrow> distinct (map fst (glob_c chs))"
  unfolding glob_c_def by (rule distinct_map_filter)

text \<open>
  Claim C6. The pipeline is deterministic: the page and the counts are a function of the
  contents of the directory (the names of its children and their texts) and of nothing
  else. In particular the order in which the directory is enumerated plays no part: two
  enumerations of the same children give the same page.
\<close>

theorem pipeline_deterministic:
  assumes "mset children = mset children'" "distinct (map fst children)"
  shows "main page_head page_tail (Some children) = main page_head page_tail (Some children')"
proof -
  have "mset (glob_c children) = mset (glob_c children')"
    using assms(1) by (simp add: glob_c_def)
  then have "sort_key fst (glob_c children) = sort_key fst (glob_c children')"
    using distinct_glob_c [OF assms(2)] by (rule sort_key_unique)
  then show ?thesis by (simp add: main_def c_files_def)
qed

theorem pipeline_deterministic_witness:
  "main ''<html>'' ''</html>''
     (Some [(''b.c'', File (Some ''/// @builtin b'')), (''a.c'', File (Some ''/// @builtin a''))])
   = main ''<html>'' ''</html>''
     (Some [(''a.c'', File (Some ''/// @builtin a'')), (''b.c'', File (Some ''/// @builtin b''))])"
  by (rule pipeline_deterministic) simp_all

section \<open>The categorizer\<close>

lemma append_entry_keys: "map fst (append_entry gs cat e) = map fst gs"
  by (induction gs) (auto simp: append_entry_def)

lemma map_of_append_entry:
  "map_of (append_entry gs cat e) c
     = (if c = cat then map_option (\<lambda>v. v @ [e]) (map_of gs c) else map_of gs c)"
  by (induction gs) (auto simp: append_entry_def)

lemma place_entry_keys:
  "map fst (place_entry gs e)
     = (if has_key gs (entry_category e) then map fst gs else map fst gs @ [entry_category e])"
  by (simp add: place_entry_def Let_def append_entry_keys)

lemma place_entry_distinct: "distinct (map fst gs) \<Longrightarrow> distinct (map fst (place_entry gs e))"
  by (auto simp: place_entry_keys has_key_def)

lemma map_of_place_entry:
  "map_of (place_entry gs e) c
     = (if c = entry_category e then Some (entries_of gs c @ [e]) else map_of gs c)"
proof (cases "has_key gs (entry_category e)")
  case True
  then obtain v where "map_of gs (entry_category e) = Some v"
    unfolding has_key_def by (metis map_of_eq_None_iff not_Some_eq set_map)
  with True show ?thesis
    by (simp add: place_entry_def Let_def map_of_append_entry entries_of_def)
next
  case False
  then have "map_of gs (entry_category e) = None"
    unfolding has_key_def by (simp add: map_of_eq_None_iff)
  with False show ?thesis
    by (auto simp: place_entry_def Let_def map_of_append_entry entries_of_def map_add_def
        split: option.splits)
qed

lemma entries_of_place_entry:
  "entries_of (place_entry gs e) c
     = (if c = entry_category e then entries_of gs c @ [e] else entries_of gs c)"
  by (simp add: entries_of_def [of "place_entry gs e"] map_of_place_entry) (simp add: entries_of_def)

lemma foldl_place_distinct:
  "distinct (map fst gs) \<Longrightarrow> distinct (map fst (foldl place_entry gs es))"
  by (induction es arbitrary: gs) (simp_all add: place_entry_distinct)

lemma place_entry_key_set:
  "fst ` set (place_entry gs e) = insert (entry_category e) (fst ` set gs)"
  using arg_cong [OF place_entry_keys [of gs e], of set] by (auto simp: has_key_def)

lemma foldl_place_keys:
  "fst ` set (foldl place_entry gs es) = fst ` set gs \<union> entry_category ` set es"
  by (induction es arbitrary: gs) (simp_all add: place_entry_key_set)

lemma foldl_place_entries:
  "entries_of (foldl place_entry gs es) c
     = entries_of gs c @ filter (\<lambda>e. entry_category e = c) es"
  by (induction es arbitrary: gs) (auto simp: entries_of_place_entry)

lemma map_of_drop_empty:
  "distinct (map fst gs) \<Longrightarrow>
   map_of (filter (\<lambda>(k, v). v \<noteq> []) gs) c
     = (if entries_of gs c \<noteq> [] then map_of gs c else None)"
proof (induction gs arbitrary: c)
  case Nil
  then show ?case by (simp add: entries_of_def)
next
  case (Cons g gs)
  obtain k v where g: "g = (k, v)" by (cases g)
  from Cons.prems g have nk: "map_of gs k = None" and d: "distinct (map fst gs)"
    by (auto simp: map_of_eq_None_iff)
  have nk': "map_of (filter (\<lambda>(k, v). v \<noteq> []) gs) k = None"
    using Cons.IH [OF d, of k] nk by simp
  show ?case
  proof (cases "c = k")
    case True
    then show ?thesis using nk' by (simp add: g entries_of_def)
  next
    case False
    then show ?thesis using Cons.IH [OF d, of c] by (simp add: g entries_of_def)
  qed
qed

lemma distinct_CATEGORY_ORDER: "distinct CATEGORY_ORDER"
  by (simp add: CATEGORY_ORDER_def SECTION_GROUPS_def)

lemma initial_groups:
  "distinct (map fst (map (\<lambda>cat. (cat, [])) CATEGORY_ORDER))"
  "entries_of (map (\<lambda>cat. (cat, [])) cats) c = []"
  by (simp_all add: comp_def distinct_CATEGORY_ORDER entries_of_def map_of_map_restrict restrict_map_def)

text \<open>
  Claim C5. For every list of entries the categorizer returns a mapping whose keys (each
  once) are exactly the categories that hold an entry, the category of an entry being its
  own or \<^verbatim>\<open>Core\<close> when it has none. The list of a category is the entries of that
  category in input order. This holds for a category that the taxonomy does not name as
  for one it names, and a category without entry, of the taxonomy or not, is no key.
\<close>

theorem group_by_category_groups:
  "distinct (map fst (group_by_category es))
   \<and> set (map fst (group_by_category es)) = entry_category ` set es
   \<and> map_of (group_by_category es) cat
       = (if cat \<in> entry_category ` set es
          then Some (filter (\<lambda>e. entry_category e = cat) es) else None)"
proof -
  let ?init = "map (\<lambda>cat. (cat, [])) CATEGORY_ORDER"
  let ?all = "foldl place_entry ?init es"
  have d: "distinct (map fst ?all)" by (rule foldl_place_distinct) (rule initial_groups)
  have e: "entries_of ?all c = filter (\<lambda>e. entry_category e = c) es" for c
    by (simp add: foldl_place_entries initial_groups)
  have ne: "filter (\<lambda>e. entry_category e = c) es \<noteq> [] \<longleftrightarrow> c \<in> entry_category ` set es" for c
    by (auto simp: filter_empty_conv)
  have m: "map_of (group_by_category es) c
       = (if c \<in> entry_category ` set es
          then Some (filter (\<lambda>e. entry_category e = c) es) else None)" for c
  proof (cases "c \<in> entry_category ` set es")
    case True
    then have "c \<in> fst ` set ?all" unfolding foldl_place_keys by blast
    then obtain v where v: "map_of ?all c = Some v"
      by (metis map_of_eq_None_iff not_Some_eq)
    then have "v = entries_of ?all c" by (simp add: entries_of_def)
    with v True show ?thesis
      unfolding group_by_category_def map_of_drop_empty [OF d] e ne by simp
  next
    case False
    then show ?thesis
      unfolding group_by_category_def map_of_drop_empty [OF d] e ne by simp
  qed
  have "distinct (map fst (group_by_category es))"
    unfolding group_by_category_def using d by (rule distinct_map_filter)
  moreover have "set (map fst (group_by_category es)) = entry_category ` set es"
  proof -
    have "c \<in> set (map fst (group_by_category es)) \<longleftrightarrow> c \<in> entry_category ` set es" for c
      using m [of c] by (metis map_of_eq_None_iff option.distinct(1) set_map)
    then show ?thesis by blast
  qed
  ultimately show ?thesis using m by simp
qed


theorem group_by_category_groups_witness:
  "map (\<lambda>(k, v). (k, map name v))
     (group_by_category
        [new_entry\<lparr>name := ''a'', category := ''Zed''\<rparr>, new_entry\<lparr>name := ''b''\<rparr>,
         new_entry\<lparr>name := ''c'', category := ''Math''\<rparr>,
         new_entry\<lparr>name := ''d'', category := ''Zed''\<rparr>,
         new_entry\<lparr>name := ''e'', category := ''Core''\<rparr>])
   = [(''Core'', [''b'', ''e'']), (''Math'', [''c'']), (''Zed'', [''a'', ''d''])]"
  using group_by_category_groups [of
        "[new_entry\<lparr>name := ''a'', category := ''Zed''\<rparr>, new_entry\<lparr>name := ''b''\<rparr>,
         new_entry\<lparr>name := ''c'', category := ''Math''\<rparr>,
         new_entry\<lparr>name := ''d'', category := ''Zed''\<rparr>,
         new_entry\<lparr>name := ''e'', category := ''Core''\<rparr>]" "''Zed''"]
  by code_simp

section \<open>The backtracking matcher\<close>

lemma splits_Cons:
  "(\<forall>p q. c # cs = p @ q \<and> list_all P p \<longrightarrow> k (acc @ p) q = (None :: 'a option))
      \<longleftrightarrow> k acc (c # cs) = None
          \<and> (P c \<longrightarrow> (\<forall>p q. cs = p @ q \<and> list_all P p \<longrightarrow> k ((acc @ [c]) @ p) q = None))"
  (is "?L \<longleftrightarrow> ?R")
proof
  assume l: ?L
  have "k acc (c # cs) = None" using l [rule_format, of "[]" "c # cs"] by simp
  moreover have "k ((acc @ [c]) @ p) q = None" if "P c" "cs = p @ q" "list_all P p" for p q
    using l [rule_format, of "c # p" q] that by simp
  ultimately show ?R by blast
next
  assume r: ?R
  have "k (acc @ p) q = None" if "c # cs = p @ q" "list_all P p" for p q
  proof (cases p)
    case Nil
    with that r show ?thesis by simp
  next
    case (Cons d p')
    with that have "d = c" "cs = p' @ q" "P c" "list_all P p'" by auto
    with r Cons show ?thesis by simp
  qed
  then show ?L by blast
qed

lemma greedy_star_None:
  "greedy_star P k acc s = None \<longleftrightarrow> (\<forall>p q. s = p @ q \<and> list_all P p \<longrightarrow> k (acc @ p) q = None)"
proof (induction s arbitrary: acc)
  case Nil
  then show ?case by simp
next
  case (Cons c cs)
  have "greedy_star P k acc (c # cs) = None
      \<longleftrightarrow> k acc (c # cs) = None \<and> (P c \<longrightarrow> greedy_star P k (acc @ [c]) cs = None)"
    by (cases "greedy_star P k (acc @ [c]) cs") auto
  then show ?case unfolding splits_Cons Cons.IH .
qed

lemma greedy_star_Some:
  "greedy_star P k acc s = Some r \<Longrightarrow> \<exists>p q. s = p @ q \<and> list_all P p \<and> k (acc @ p) q = Some r"
proof (induction s arbitrary: acc)
  case Nil
  then show ?case by simp
next
  case (Cons c cs)
  show ?case
  proof (cases "P c \<and> greedy_star P k (acc @ [c]) cs = Some r")
    case True
    then obtain p q where "cs = p @ q" "list_all P p" "k ((acc @ [c]) @ p) q = Some r"
      using Cons.IH by blast
    then have "c # cs = (c # p) @ q \<and> list_all P (c # p) \<and> k (acc @ c # p) q = Some r"
      using True by simp
    then show ?thesis by blast
  next
    case False
    with Cons.prems have "k acc (c # cs) = Some r"
      by (auto split: if_splits option.splits)
    then have "c # cs = [] @ (c # cs) \<and> list_all P [] \<and> k (acc @ []) (c # cs) = Some r" by simp
    then show ?thesis by blast
  qed
qed

lemma lazy_star_None:
  "lazy_star P k acc s = None \<longleftrightarrow> (\<forall>p q. s = p @ q \<and> list_all P p \<longrightarrow> k (acc @ p) q = None)"
proof (induction s arbitrary: acc)
  case Nil
  then show ?case by simp
next
  case (Cons c cs)
  have "lazy_star P k acc (c # cs) = None
      \<longleftrightarrow> k acc (c # cs) = None \<and> (P c \<longrightarrow> lazy_star P k (acc @ [c]) cs = None)"
    by (cases "k acc (c # cs)") auto
  then show ?case unfolding splits_Cons Cons.IH .
qed


text \<open>The run that a lazy star settles on is the shortest that the continuation accepts.\<close>

lemma lazy_star_Some:
  "lazy_star P k acc s = Some r \<Longrightarrow>
   \<exists>p q. s = p @ q \<and> list_all P p \<and> k (acc @ p) q = Some r
     \<and> (\<forall>p' q'. p = p' @ q' \<and> q' \<noteq> [] \<longrightarrow> k (acc @ p') (q' @ q) = None)"
proof (induction s arbitrary: acc)
  case Nil
  then have "[] = [] @ [] \<and> list_all P [] \<and> k (acc @ []) [] = Some r
     \<and> (\<forall>p' q'. [] = p' @ q' \<and> q' \<noteq> [] \<longrightarrow> k (acc @ p') (q' @ []) = None)" by simp
  then show ?case by (intro exI)
next
  case (Cons c cs)
  show ?case
  proof (cases "k acc (c # cs)")
    case (Some r')
    with Cons.prems have "r' = r" by simp
    with Some have "c # cs = [] @ (c # cs) \<and> list_all P [] \<and> k (acc @ []) (c # cs) = Some r
       \<and> (\<forall>p' q'. [] = p' @ q' \<and> q' \<noteq> [] \<longrightarrow> k (acc @ p') (q' @ (c # cs)) = None)" by simp
    then show ?thesis by (intro exI)
  next
    case None
    with Cons.prems have c: "P c" and rec: "lazy_star P k (acc @ [c]) cs = Some r"
      by (auto split: if_splits)
    from Cons.IH [OF rec] obtain p q where pq: "cs = p @ q" "list_all P p"
      "k ((acc @ [c]) @ p) q = Some r"
      and least: "\<And>p' q'. p = p' @ q' \<Longrightarrow> q' \<noteq> [] \<Longrightarrow> k ((acc @ [c]) @ p') (q' @ q) = None"
      by blast
    have "k (acc @ p') (q' @ q) = None" if "c # p = p' @ q'" "q' \<noteq> []" for p' q'
    proof (cases p')
      case Nil
      with that have "q' = c # p" by simp
      with None pq Nil show ?thesis by simp
    next
      case (Cons d p'')
      with that have "d = c" "p = p'' @ q'" by auto
      with least [of p'' q'] that Cons show ?thesis by simp
    qed
    then have "c # cs = (c # p) @ q \<and> list_all P (c # p) \<and> k (acc @ (c # p)) q = Some r
       \<and> (\<forall>p' q'. c # p = p' @ q' \<and> q' \<noteq> [] \<longrightarrow> k (acc @ p') (q' @ q) = None)"
      using pq c by simp
    then show ?thesis by (intro exI)
  qed
qed

lemma startswith_iff: "startswith s p \<longleftrightarrow> (\<exists>q. s = p @ q)"
  unfolding startswith_def by (metis append_eq_conv_conj append_take_drop_id)

lemma lit_append [simp]: "lit p k (p @ q) = k q"
  by (simp add: lit_def startswith_def)

lemma lit_Some: "lit p k s = Some r \<Longrightarrow> \<exists>q. s = p @ q \<and> k q = Some r"
  unfolding lit_def by (metis append_take_drop_id option.distinct(1) startswith_def)

lemma greedy_any_all:
  "k (acc @ s) [] = Some r \<Longrightarrow> greedy_star (\<lambda>c. True) k acc s = Some r"
  by (induction s arbitrary: acc) simp_all

lemma greedy_plus_any_end:
  "greedy_plus (\<lambda>c. True) (\<lambda>g s3. at_end (F g) s3) s = (if s = [] then None else Some (F s))"
proof (cases "s = []")
  case True
  then show ?thesis by (simp add: greedy_plus_def)
next
  case False
  then have "greedy_star (\<lambda>c. True) (\<lambda>run rest. if run = [] then None else at_end (F run) rest) [] s
      = Some (F s)"
    by (intro greedy_any_all) (simp add: at_end_def)
  with False show ?thesis by (simp add: greedy_plus_def)
qed

lemma arrow_clause_Some:
  assumes "arrow_clause g1 g2 s = Some m"
  shows "\<exists>ws ret. s = ''->'' @ ws @ ret \<and> list_all isspace ws \<and> ret \<noteq> []
           \<and> m = (g1, g2, Some s, Some ret)"
proof -
  let ?F = "\<lambda>ws g4. (g1, g2, Some (''->'' @ ws @ g4), Some g4)"
  let ?K = "\<lambda>ws s2. greedy_plus (\<lambda>c. True) (\<lambda>g4 s3. at_end (?F ws g4) s3) s2"
  from lit_Some [OF assms [unfolded arrow_clause_def]]
  obtain s1 where s: "s = ''->'' @ s1" and m: "greedy_star isspace ?K [] s1 = Some m"
    by (elim exE conjE)
  from greedy_star_Some [OF m] obtain ws s2 where w: "s1 = ws @ s2" "list_all isspace ws"
    and k: "?K ([] @ ws) s2 = Some m"
    by (elim exE conjE)
  have "?K ([] @ ws) s2 = (if s2 = [] then None else Some (?F ([] @ ws) s2))"
    by (rule greedy_plus_any_end)
  with k have "s2 \<noteq> []" "m = ?F ws s2"
    by (simp_all split: if_splits)
  with s w have "s = ''->'' @ ws @ s2 \<and> list_all isspace ws \<and> s2 \<noteq> []
           \<and> m = (g1, g2, Some s, Some s2)" by simp
  then show ?thesis by (intro exI)
qed

lemma arrow_clause_None:
  "arrow_clause g1 g2 s = None \<longleftrightarrow> \<not> (startswith s ''->'' \<and> drop 2 s \<noteq> [])"
proof (cases "startswith s ''->''")
  case False
  then show ?thesis by (simp add: arrow_clause_def lit_def)
next
  case True
  then obtain s1 where s: "s = ''->'' @ s1" unfolding startswith_iff by (elim exE)
  let ?F = "\<lambda>ws g4. (g1, g2, Some (''->'' @ ws @ g4), Some g4)"
  let ?K = "\<lambda>ws s2. greedy_plus (\<lambda>c. True) (\<lambda>g4 s3. at_end (?F ws g4) s3) s2"
  have K: "?K ws s2 = (if s2 = [] then None else Some (?F ws s2))" for ws s2
    by (rule greedy_plus_any_end)
  have a: "arrow_clause g1 g2 s = greedy_star isspace ?K [] s1"
    unfolding arrow_clause_def s by (rule lit_append)
  have "greedy_star isspace ?K [] s1 = None \<longleftrightarrow> s1 = []"
  proof
    assume "greedy_star isspace ?K [] s1 = None"
    then have "\<forall>p q. s1 = p @ q \<and> list_all isspace p \<longrightarrow> ?K ([] @ p) q = None"
      unfolding greedy_star_None .
    then have "s1 = [] @ s1 \<and> list_all isspace [] \<longrightarrow> ?K ([] @ []) s1 = None"
      by (elim allE)
    then have "?K ([] @ []) s1 = None" by simp
    then show "s1 = []" unfolding K by (simp split: if_splits)
  next
    assume "s1 = []"
    then show "greedy_star isspace ?K [] s1 = None" unfolding K by simp
  qed
  moreover have "drop 2 s = s1" by (simp add: s)
  ultimately show ?thesis using True a by simp
qed

lemma not_space_minus: "\<not> isspace CHR ''-''"
  by (simp add: isspace_def code_def)

lemma space_newline: "isspace CHR ''\<newline>''"
  by (simp add: isspace_def code_def)

lemma dropWhile_spaces: "list_all isspace ws \<Longrightarrow> dropWhile isspace (ws @ s) = dropWhile isspace s"
  by (simp add: list_all_iff dropWhile_append2)

lemma at_end_Some: "at_end r s = Some r' \<Longrightarrow> r' = r \<and> list_all isspace s"
  by (auto simp: at_end_def space_newline split: if_splits)

lemma sig_tail_Some:
  assumes "sig_tail g1 g2 s = Some m"
  shows "tail_ok s \<and> (\<exists>g3 g4. m = (g1, g2, g3, g4)
     \<and> (case g4 of None \<Rightarrow> list_all isspace s
         | Some ret \<Rightarrow> ret \<noteq> [] \<and> (\<exists>ws ws'. list_all isspace ws \<and> list_all isspace ws'
              \<and> s = ws @ ''->'' @ ws' @ ret)))"
proof -
  let ?K = "\<lambda>ws s1. case arrow_clause g1 g2 s1 of Some m \<Rightarrow> Some m
                      | None \<Rightarrow> at_end (g1, g2, None, None) s1"
  from greedy_star_Some [OF assms [unfolded sig_tail_def]]
  obtain ws s1 where s: "s = ws @ s1" and ws: "list_all isspace ws" and k: "?K ([] @ ws) s1 = Some m"
    by (elim exE conjE)
  show ?thesis
  proof (cases "arrow_clause g1 g2 s1")
    case (Some m')
    with k have "m' = m" by simp
    with Some arrow_clause_Some [of g1 g2 s1 m]
    obtain ws' ret where a: "s1 = ''->'' @ ws' @ ret" "list_all isspace ws'" "ret \<noteq> []"
      "m = (g1, g2, Some s1, Some ret)" by auto
    have "dropWhile isspace s = s1"
      unfolding s dropWhile_spaces [OF ws] by (simp add: a(1) not_space_minus)
    then have "tail_ok s" using a(1,3) by (simp add: tail_ok_def startswith_def)
    moreover have "ret \<noteq> [] \<and> (\<exists>ws ws'. list_all isspace ws \<and> list_all isspace ws'
              \<and> s = ws @ ''->'' @ ws' @ ret)"
      using a ws s by blast
    ultimately show ?thesis using a(4) by simp
  next
    case None
    with k have "at_end (g1, g2, None, None) s1 = Some m" by simp
    then have m: "m = (g1, g2, None, None)" and "list_all isspace s1" by (auto dest: at_end_Some)
    with ws s have sp: "list_all isspace s" by simp
    then have "dropWhile isspace s = []" by (simp add: list_all_iff)
    then have "tail_ok s" by (simp add: tail_ok_def)
    with m sp show ?thesis by simp
  qed
qed

lemma sig_tail_None: "sig_tail g1 g2 s = None \<longleftrightarrow> \<not> tail_ok s"
proof
  assume n: "sig_tail g1 g2 s = None"
  let ?K = "\<lambda>ws s1. case arrow_clause g1 g2 s1 of Some m \<Rightarrow> Some m
                      | None \<Rightarrow> at_end (g1, g2, None, None) s1"
  let ?ws = "takeWhile isspace s" and ?r = "dropWhile isspace s"
  from n have "\<forall>p q. s = p @ q \<and> list_all isspace p \<longrightarrow> ?K ([] @ p) q = None"
    unfolding sig_tail_def greedy_star_None .
  then have "s = ?ws @ ?r \<and> list_all isspace ?ws \<longrightarrow> ?K ([] @ ?ws) ?r = None"
    by (elim allE)
  moreover have "list_all isspace ?ws" by (simp add: list_all_iff) (meson set_takeWhileD)
  ultimately have k: "?K ([] @ ?ws) ?r = None" by simp
  have a: "arrow_clause g1 g2 ?r = None"
    using k by (cases "arrow_clause g1 g2 ?r") auto
  have "at_end (g1, g2, None :: string option, None :: string option) ?r = None"
    using k a by simp
  then have "?r \<noteq> []" unfolding at_end_def by (auto split: if_splits)
  moreover have "\<not> (startswith ?r ''->'' \<and> drop 2 ?r \<noteq> [])"
    using a unfolding arrow_clause_None .
  ultimately have "\<not> (?r = [] \<or> (startswith ?r ''->'' \<and> drop 2 ?r \<noteq> []))" by simp
  then show "\<not> tail_ok s" by (simp add: tail_ok_def Let_def)
next
  assume "\<not> tail_ok s"
  then show "sig_tail g1 g2 s = None"
    using sig_tail_Some [of g1 g2 s] by (cases "sig_tail g1 g2 s") auto
qed

lemma sig_match_Some:
  assumes "sig_match sig = Some m"
  shows "\<exists>nm ws params rest.
           sig = nm @ ws @ ''('' @ params @ '')'' @ rest
           \<and> nm \<noteq> [] \<and> list_all name_char nm \<and> list_all isspace ws
           \<and> sig_tail nm params rest = Some m
           \<and> (\<forall>p q. params = p @ '')'' @ q \<longrightarrow> \<not> tail_ok (q @ '')'' @ rest))"
proof -
  let ?K4 = "\<lambda>g1 g2 s4. lit '')'' (\<lambda>s5. sig_tail g1 g2 s5) s4"
  let ?K3 = "\<lambda>g1 s3. lazy_star (\<lambda>c. True) (?K4 g1) [] s3"
  let ?K2 = "\<lambda>g1 ws s2. lit ''('' (?K3 g1) s2"
  let ?K1 = "\<lambda>g1 s1. greedy_star isspace (?K2 g1) [] s1"
  let ?K0 = "\<lambda>run rest. if run = [] then None else ?K1 run rest"
  have "greedy_star name_char ?K0 [] sig = Some m"
    using assms unfolding sig_match_def greedy_plus_def .
  from greedy_star_Some [OF this]
  obtain nm s1 where 1: "sig = nm @ s1" "list_all name_char nm" and k0: "?K0 ([] @ nm) s1 = Some m"
    by (elim exE conjE)
  from k0 have nm: "nm \<noteq> []" and k1: "?K1 nm s1 = Some m"
    by (simp_all split: if_splits)
  from greedy_star_Some [OF k1]
  obtain ws s2 where 2: "s1 = ws @ s2" "list_all isspace ws" and k2: "?K2 nm ([] @ ws) s2 = Some m"
    by (elim exE conjE)
  from lit_Some [OF k2]
  obtain s3 where 3: "s2 = ''('' @ s3" and k3: "?K3 nm s3 = Some m"
    by (elim exE conjE)
  from lazy_star_Some [OF k3]
  obtain params s4 where 4: "s3 = params @ s4" and k4: "?K4 nm ([] @ params) s4 = Some m"
    and least: "\<forall>p' q'. params = p' @ q' \<and> q' \<noteq> [] \<longrightarrow> ?K4 nm ([] @ p') (q' @ s4) = None"
    by (elim exE conjE)
  from lit_Some [OF k4]
  obtain rest where 5: "s4 = '')'' @ rest" and k5: "sig_tail nm ([] @ params) rest = Some m"
    by (elim exE conjE)
  have min: "\<not> tail_ok (q @ '')'' @ rest)" if "params = p @ '')'' @ q" for p q
  proof -
    have "params = p @ ('')'' @ q) \<and> '')'' @ q \<noteq> []" using that by simp
    with least have "?K4 nm ([] @ p) (('')'' @ q) @ s4) = None" by blast
    then have "lit '')'' (\<lambda>s5. sig_tail nm p s5) ('')'' @ (q @ s4)) = None" by simp
    then have "sig_tail nm p (q @ s4) = None" unfolding lit_append .
    then show ?thesis unfolding sig_tail_None by (simp add: 5)
  qed
  have "sig = nm @ ws @ ''('' @ params @ '')'' @ rest
           \<and> nm \<noteq> [] \<and> list_all name_char nm \<and> list_all isspace ws
           \<and> sig_tail nm params rest = Some m
           \<and> (\<forall>p q. params = p @ '')'' @ q \<longrightarrow> \<not> tail_ok (q @ '')'' @ rest))"
    using 1 2 3 4 5 nm k5 min by simp
  then show ?thesis by (intro exI)
qed

lemma sig_match_None: "sig_match sig = None \<longleftrightarrow> \<not> sig_pattern sig"
proof
  assume n: "sig_match sig = None"
  let ?K4 = "\<lambda>g1 g2 s4. lit '')'' (\<lambda>s5. sig_tail g1 g2 s5) s4"
  let ?K3 = "\<lambda>g1 s3. lazy_star (\<lambda>c. True) (?K4 g1) [] s3"
  let ?K2 = "\<lambda>g1 ws s2. lit ''('' (?K3 g1) s2"
  let ?K1 = "\<lambda>g1 s1. greedy_star isspace (?K2 g1) [] s1"
  let ?K0 = "\<lambda>run rest. if run = [] then None else ?K1 run rest"
  have n0: "\<And>p q. sig = p @ q \<Longrightarrow> list_all name_char p \<Longrightarrow> ?K0 ([] @ p) q = None"
    using n unfolding sig_match_def greedy_plus_def greedy_star_None by blast
  show "\<not> sig_pattern sig"
  proof
    assume "sig_pattern sig"
    then obtain nm ws params rest where s: "sig = nm @ ws @ ''('' @ params @ '')'' @ rest"
      and nm: "nm \<noteq> []" "list_all name_char nm" and ws: "list_all isspace ws" and t: "tail_ok rest"
      unfolding sig_pattern_def by (elim exE conjE)
    from n0 [OF s nm(2)] nm(1) have "?K1 nm (ws @ ''('' @ params @ '')'' @ rest) = None" by simp
    then have "\<And>p q. ws @ ''('' @ params @ '')'' @ rest = p @ q \<Longrightarrow> list_all isspace p
        \<Longrightarrow> ?K2 nm ([] @ p) q = None"
      unfolding greedy_star_None by blast
    from this [OF refl ws] have "?K3 nm (params @ '')'' @ rest) = None"
      unfolding lit_append .
    then have "\<And>p q. params @ '')'' @ rest = p @ q \<Longrightarrow> list_all (\<lambda>c. True) p
        \<Longrightarrow> ?K4 nm ([] @ p) q = None"
      unfolding lazy_star_None by blast
    from this [OF refl] have "?K4 nm ([] @ params) ('')'' @ rest) = None"
      by (simp add: list_all_iff)
    then have "sig_tail nm ([] @ params) rest = None" unfolding lit_append .
    with t show False unfolding sig_tail_None by simp
  qed
next
  assume "\<not> sig_pattern sig"
  show "sig_match sig = None"
  proof (cases "sig_match sig")
    case None
    then show ?thesis .
  next
    case (Some m)
    from sig_match_Some [OF Some] obtain nm ws params rest where
      "sig = nm @ ws @ ''('' @ params @ '')'' @ rest" "nm \<noteq> []" "list_all name_char nm"
      "list_all isspace ws" "sig_tail nm params rest = Some m"
      by (elim exE conjE)
    moreover from this have "tail_ok rest" using sig_tail_None [of nm params rest] by simp
    ultimately have "sig_pattern sig" unfolding sig_pattern_def by blast
    with \<open>\<not> sig_pattern sig\<close> show ?thesis by simp
  qed
qed

section \<open>The signature tokenizer\<close>

text \<open>
  Claim C4. The signature tokenizer is a total function of its input: no operation of it
  can raise. Whenever the input does not match the structural pattern
  \<^verbatim>\<open>name(params)\<close> with an optional arrow clause, the result is the one verbatim token
  that carries the input, HTML-escaped as all text of the page is, and no decomposition
  into name, parameters and return type.
\<close>

theorem signature_fallback:
  assumes "\<not> sig_pattern sig"
  shows \<open>format_signature_html sig = ''<span class="fn">'' @ escape sig @ ''</span>''\<close>
proof -
  have "sig_match sig = None" using assms unfolding sig_match_None .
  then show ?thesis by (simp add: format_signature_html_def)
qed

theorem signature_fallback_witness:
  \<open>\<not> sig_pattern ''a < b (c''
   \<and> format_signature_html ''a < b (c'' = ''<span class="fn">a &lt; b (c</span>''\<close>
proof -
  have "sig_match ''a < b (c'' = None" by code_simp
  then have n: "\<not> sig_pattern ''a < b (c''" unfolding sig_match_None .
  have e: "escape ''a < b (c'' = ''a &lt; b (c''" by code_simp
  show ?thesis using n signature_fallback [OF n] unfolding e by simp
qed

text \<open>
  Claim C3 says that the parameters extend greedily to the last \<^verbatim>\<open>)\<close> of the
  signature, and that a signature whose parameter list holds a parenthesized sub-expression
  does not match. Neither holds: in \<^verbatim>\<open>f(a) -> (A) -> B\<close> the parameters are
  \<^verbatim>\<open>a\<close>, and \<^verbatim>\<open>f(g(x))\<close> matches, with parameters \<^verbatim>\<open>g(x)\<close>.
\<close>

theorem params_not_greedy_counterexample:
  \<open>sig_match ''f(a) -> (A) -> B'' = Some (''f'', ''a'', Some ''-> (A) -> B'', Some ''(A) -> B'')
   \<and> sig_match ''f(g(x))'' = Some (''f'', ''g(x)'', None, None)
   \<and> format_signature_html ''f(g(x))'' \<noteq> ''<span class="fn">f(g(x))</span>''\<close>
  by code_simp

text \<open>
  Claim C3, amended. When the signature matches, the parameters are matched lazily: they
  end at the first \<^verbatim>\<open>)\<close> after which the rest of the signature is white space with an
  optional arrow clause. The return type is the whole text after the arrow and its white
  space, so a return type written as parenthesized text like \<^verbatim>\<open>(A) -> B\<close> is tolerated.
  A signature whose parameter list holds a parenthesized sub-expression still matches
  structurally: a name, white space, any text between parentheses and such a rest always
  match.
\<close>

theorem params_lazy:
  "(sig_match sig = Some (nm, params, g3, g4) \<longrightarrow>
      (\<exists>ws rest. sig = nm @ ws @ ''('' @ params @ '')'' @ rest
         \<and> list_all isspace ws \<and> tail_ok rest
         \<and> (\<forall>p q. params = p @ '')'' @ q \<longrightarrow> \<not> tail_ok (q @ '')'' @ rest))
         \<and> (case g4 of
               None \<Rightarrow> list_all isspace rest
             | Some ret \<Rightarrow> ret \<noteq> [] \<and> (\<exists>ws1 ws2. list_all isspace ws1 \<and> list_all isspace ws2
                   \<and> rest = ws1 @ ''->'' @ ws2 @ ret))))
   \<and> (nm' \<noteq> [] \<and> list_all name_char nm' \<and> list_all isspace ws' \<and> tail_ok rest' \<longrightarrow>
        sig_match (nm' @ ws' @ ''('' @ params' @ '')'' @ rest') \<noteq> None)"
proof (intro conjI impI)
  assume m: "sig_match sig = Some (nm, params, g3, g4)"
  from sig_match_Some [OF m] obtain n ws ps rest where
    s: "sig = n @ ws @ ''('' @ ps @ '')'' @ rest" and ws: "list_all isspace ws"
    and t: "sig_tail n ps rest = Some (nm, params, g3, g4)"
    and least: "\<forall>p q. ps = p @ '')'' @ q \<longrightarrow> \<not> tail_ok (q @ '')'' @ rest)"
    by (elim exE conjE)
  from sig_tail_Some [OF t] have ok: "tail_ok rest" and eq: "n = nm" "ps = params"
    and g: "case g4 of None \<Rightarrow> list_all isspace rest
             | Some ret \<Rightarrow> ret \<noteq> [] \<and> (\<exists>ws1 ws2. list_all isspace ws1 \<and> list_all isspace ws2
                   \<and> rest = ws1 @ ''->'' @ ws2 @ ret)"
    by auto
  have "sig = nm @ ws @ ''('' @ params @ '')'' @ rest
         \<and> list_all isspace ws \<and> tail_ok rest
         \<and> (\<forall>p q. params = p @ '')'' @ q \<longrightarrow> \<not> tail_ok (q @ '')'' @ rest))
         \<and> (case g4 of
               None \<Rightarrow> list_all isspace rest
             | Some ret \<Rightarrow> ret \<noteq> [] \<and> (\<exists>ws1 ws2. list_all isspace ws1 \<and> list_all isspace ws2
                   \<and> rest = ws1 @ ''->'' @ ws2 @ ret))"
    using s ws ok least g unfolding eq by (intro conjI)
  then show "\<exists>ws rest. sig = nm @ ws @ ''('' @ params @ '')'' @ rest
         \<and> list_all isspace ws \<and> tail_ok rest
         \<and> (\<forall>p q. params = p @ '')'' @ q \<longrightarrow> \<not> tail_ok (q @ '')'' @ rest))
         \<and> (case g4 of
               None \<Rightarrow> list_all isspace rest
             | Some ret \<Rightarrow> ret \<noteq> [] \<and> (\<exists>ws1 ws2. list_all isspace ws1 \<and> list_all isspace ws2
                   \<and> rest = ws1 @ ''->'' @ ws2 @ ret))"
    by (intro exI)
next
  assume "nm' \<noteq> [] \<and> list_all name_char nm' \<and> list_all isspace ws' \<and> tail_ok rest'"
  then have "sig_pattern (nm' @ ws' @ ''('' @ params' @ '')'' @ rest')"
    unfolding sig_pattern_def by blast
  then show "sig_match (nm' @ ws' @ ''('' @ params' @ '')'' @ rest') \<noteq> None"
    unfolding sig_match_None by simp
qed

theorem params_lazy_witness:
  "(\<exists>ws rest. ''f(a) -> (A) -> B'' = ''f'' @ ws @ ''('' @ ''a'' @ '')'' @ rest
         \<and> list_all isspace ws \<and> tail_ok rest
         \<and> (\<exists>ws1 ws2. list_all isspace ws1 \<and> list_all isspace ws2
                   \<and> rest = ws1 @ ''->'' @ ws2 @ ''(A) -> B''))
   \<and> sig_match (''f'' @ [] @ ''('' @ ''g(x), h(y)'' @ '')'' @ '' -> R'') \<noteq> None"
proof -
  have m: "sig_match ''f(a) -> (A) -> B'' = Some (''f'', ''a'', Some ''-> (A) -> B'', Some ''(A) -> B'')"
    by code_simp
  have h: "''f'' \<noteq> [] \<and> list_all name_char ''f'' \<and> list_all isspace [] \<and> tail_ok '' -> R''"
    by code_simp
  note t = params_lazy [of "''f(a) -> (A) -> B''" "''f''" "''a''" "Some ''-> (A) -> B''"
      "Some ''(A) -> B''" "''f''" "[]" "'' -> R''" "''g(x), h(y)''"]
  from t m obtain ws rest where "''f(a) -> (A) -> B'' = ''f'' @ ws @ ''('' @ ''a'' @ '')'' @ rest
         \<and> list_all isspace ws \<and> tail_ok rest
         \<and> (\<exists>ws1 ws2. list_all isspace ws1 \<and> list_all isspace ws2
                   \<and> rest = ws1 @ ''->'' @ ws2 @ ''(A) -> B'')"
    by auto
  then have "\<exists>ws rest. ''f(a) -> (A) -> B'' = ''f'' @ ws @ ''('' @ ''a'' @ '')'' @ rest
         \<and> list_all isspace ws \<and> tail_ok rest
         \<and> (\<exists>ws1 ws2. list_all isspace ws1 \<and> list_all isspace ws2
                   \<and> rest = ws1 @ ''->'' @ ws2 @ ''(A) -> B'')"
    by (intro exI)
  moreover from t h have "sig_match (''f'' @ [] @ ''('' @ ''g(x), h(y)'' @ '')'' @ '' -> R'') \<noteq> None"
    by blast
  ultimately show ?thesis by (intro conjI)
qed

section \<open>Escaping\<close>

lemma startswith_append: "startswith s p \<Longrightarrow> startswith (s @ t) p"
  unfolding startswith_def by (metis append_eq_conv_conj append_take_drop_id append.assoc)

lemma entity_append:
  "list_ex (startswith a) entity_names \<Longrightarrow> list_ex (startswith (a @ b)) entity_names"
  by (meson list_ex_iff startswith_append)

lemma inert_append: "inert a \<Longrightarrow> inert b \<Longrightarrow> inert (a @ b)"
  by (induction a) (simp_all add: entity_append)

lemma inert_escape_char: "inert (escape_char c)"
  by (simp add: escape_char_def entity_names_def startswith_def)

lemma inert_escape: "inert (escape s)"
  unfolding escape_def by (induction s) (simp_all add: inert_append inert_escape_char)

lemma code_markup:
  "code CHR ''&'' = 38" "code CHR ''<'' = 60" "code CHR ''>'' = 62" "code (CHR 0x22) = 34"
  "code (CHR 0x27) = 39"
  by (simp_all add: code_def)

lemma anchor_out_inert_char:
  "anchor_out_char c \<Longrightarrow>
     c \<noteq> CHR ''&'' \<and> c \<noteq> CHR ''<'' \<and> c \<noteq> CHR ''>'' \<and> c \<noteq> CHR 0x22 \<and> c \<noteq> CHR 0x27"
  unfolding anchor_out_char_def ascii_lower_def ascii_digit_def
  by (auto simp: code_markup code_us simp flip: code_inj)

lemma anchor_out_inert: "list_all anchor_out_char s \<Longrightarrow> inert s"
  by (induction s) (auto dest: anchor_out_inert_char)

lemma inert_make_anchor: "inert (make_anchor s)"
  by (rule anchor_out_inert) (rule anchor_chars)

lemma digit_inert_char:
  "d < 10 \<Longrightarrow> digit_char d \<noteq> CHR ''&'' \<and> digit_char d \<noteq> CHR ''<'' \<and> digit_char d \<noteq> CHR ''>''
     \<and> digit_char d \<noteq> CHR 0x22 \<and> digit_char d \<noteq> CHR 0x27"
  unfolding digit_char_def
  by (auto simp: code_markup code_char_of simp flip: code_inj)

lemma inert_str_nat: "inert (str_nat n)"
proof (induction n rule: str_nat.induct)
  case (1 n)
  have d: "inert [digit_char m]" if "m < 10" for m using digit_inert_char [OF that] by simp
  show ?case
  proof (cases "n < 10")
    case True
    then have "str_nat n = [digit_char n]" by (simp add: str_nat.simps [of n])
    then show ?thesis using d [OF True] by simp
  next
    case False
    then have "inert (str_nat (n div 10))" using 1 by simp
    moreover have "inert [digit_char (n mod 10)]" by (rule d) simp
    ultimately have "inert (str_nat (n div 10) @ [digit_char (n mod 10)])" by (rule inert_append)
    moreover have "str_nat n = str_nat (n div 10) @ [digit_char (n mod 10)]"
      using False by (simp add: str_nat.simps [of n])
    ultimately show ?thesis by simp
  qed
qed

lemma templated_Nil: "templated []"
  unfolding templated_def by (rule exI [of _ "[]"]) simp

lemma templated_inert: "inert s \<Longrightarrow> templated s"
  unfolding templated_def by (rule exI [of _ "[s]"]) simp

lemma templated_fragment: "f \<in> set template_fragments \<Longrightarrow> templated f"
  unfolding templated_def by (rule exI [of _ "[f]"]) simp

lemma templated_append: "templated a \<Longrightarrow> templated b \<Longrightarrow> templated (a @ b)"
proof -
  assume "templated a" "templated b"
  then obtain ps qs where "a = concat ps" "b = concat qs"
    "list_all (\<lambda>p. p \<in> set template_fragments \<or> inert p) ps"
    "list_all (\<lambda>p. p \<in> set template_fragments \<or> inert p) qs"
    unfolding templated_def by (elim exE conjE)
  then have "a @ b = concat (ps @ qs) \<and> list_all (\<lambda>p. p \<in> set template_fragments \<or> inert p) (ps @ qs)"
    by simp
  then show ?thesis unfolding templated_def by (rule exI)
qed

lemma templated_concat_map: "(\<And>x. x \<in> set xs \<Longrightarrow> templated (f x)) \<Longrightarrow> templated (concat (map f xs))"
  by (induction xs) (simp_all add: templated_Nil templated_append)

lemma templated_join:
  "templated sep \<Longrightarrow> (\<And>x. x \<in> set xs \<Longrightarrow> templated x) \<Longrightarrow> templated (join sep xs)"
  by (induction sep xs rule: join.induct) (simp_all add: templated_Nil templated_append)

lemma templated_if:
  "(c \<Longrightarrow> templated a) \<Longrightarrow> (\<not> c \<Longrightarrow> templated b) \<Longrightarrow> templated (if c then a else b)"
  by simp

lemma frags:
  \<open>templated ''<span class="text">''\<close> \<open>templated ''</span>''\<close>
  \<open>templated ''<span class="op">:</span> ''\<close> \<open>templated ''<span class="typ">''\<close>
  \<open>templated ''<span class="fn">''\<close> \<open>templated ''<span class="text">(</span>''\<close>
  \<open>templated ''<span class="op">, </span>''\<close> \<open>templated ''<span class="text">)</span>''\<close>
  \<open>templated '' <span class="op">-&gt;</span> <span class="typ">''\<close>
  \<open>templated ''<span class="cmt">''\<close>
  \<open>templated ''        <a href="#''\<close> \<open>templated ''" class="sidebar-link" data-cat="''\<close>
  \<open>templated ''">''\<close> \<open>templated ''<span class="sidebar-count">''\<close>
  \<open>templated ''</span></a>\<newline>''\<close>
  \<open>templated ''      <div class="sidebar-section">\<newline>''\<close>
  \<open>templated ''        <div class="sidebar-heading">''\<close>
  \<open>templated ''</div>\<newline>''\<close> \<open>templated ''      </div>\<newline>''\<close>
  \<open>templated ''          <pre><code>''\<close> \<open>templated ''</code></pre>\<newline>''\<close>
  \<open>templated ''      <div class="doc-entry" id="''\<close> \<open>templated ''" data-name="''\<close>
  \<open>templated ''" data-desc="''\<close> \<open>templated ''">\<newline>''\<close>
  \<open>templated ''        <div class="doc-sig">''\<close> \<open>templated ''        <p class="doc-desc">''\<close>
  \<open>templated ''</p>\<newline>''\<close>
  \<open>templated ''        <div class="doc-examples">\<newline>''\<close> \<open>templated ''        </div>\<newline>''\<close>
  \<open>templated ''    <div class="doc-category" id="''\<close>
  \<open>templated ''      <div class="section-label">''\<close>
  \<open>templated ''      <h2 class="section-title">''\<close>
  \<open>templated ''</h2>\<newline>''\<close> \<open>templated ''    </div>\<newline>''\<close>
  \<open>templated ''      <div class="doc-stats">''\<close> \<open>templated '' categories</div>\<newline>''\<close>
  \<open>templated empty_content\<close> \<open>templated empty_sidebar\<close>
  by (rule templated_fragment, simp add: template_fragments_def)+

lemma frag_text: "templated '' functions across ''"
  by (rule templated_inert) simp

lemmas templated_intros =
  templated_append templated_if templated_Nil frags frag_text
  templated_inert [OF inert_escape] templated_inert [OF inert_make_anchor]
  templated_inert [OF inert_str_nat]

lemma templated_format_param: "templated (format_param p)"
proof (cases "find p '':''")
  case None
  then show ?thesis unfolding format_param_def by (simp only: option.case) (intro templated_intros)
next
  case (Some i)
  then show ?thesis unfolding format_param_def Let_def
    by (simp only: option.case) (intro templated_intros)
qed

lemma format_signature_html_Some:
  assumes "sig_match sig = Some (nm, params_raw, g3, g4)"
  shows \<open>format_signature_html sig =
     (''<span class="fn">'' @ escape nm @ ''</span>'') @ ''<span class="text">(</span>''
     @ (if strip params_raw \<noteq> []
        then join ''<span class="op">, </span>''
               (map format_param (map strip (split CHR '','' params_raw)))
        else [])
     @ ''<span class="text">)</span>''
     @ (if strip (case g4 of Some r \<Rightarrow> r | None \<Rightarrow> []) \<noteq> []
        then '' <span class="op">-&gt;</span> <span class="typ">''
               @ escape (strip (case g4 of Some r \<Rightarrow> r | None \<Rightarrow> [])) @ ''</span>''
        else [])\<close>
  using assms by (simp add: format_signature_html_def Let_def)

lemma templated_format_signature_html: "templated (format_signature_html sig)"
proof (cases "sig_match sig")
  case None
  then show ?thesis unfolding format_signature_html_def
    by (simp only: option.case) (intro templated_intros)
next
  case (Some m)
  obtain nm params_raw g3 g4 where "m = (nm, params_raw, g3, g4)" by (cases m)
  with Some have "sig_match sig = Some (nm, params_raw, g3, g4)" by simp
  note e = format_signature_html_Some [OF this]
  show ?thesis unfolding e
    by (intro templated_intros templated_join) (auto intro: templated_format_param)
qed

lemma templated_format_example_html: "templated (format_example_html ex)"
proof (cases "find ex ''//''")
  case None
  then show ?thesis unfolding format_example_html_def
    by (simp only: option.case) (intro templated_intros)
next
  case (Some i)
  then show ?thesis unfolding format_example_html_def Let_def
    by (simp only: option.case) (intro templated_intros)
qed

lemma templated_example_block: "templated (example_block ex)"
  unfolding example_block_def by (intro templated_intros templated_format_example_html)

lemma templated_entry_card: "templated (entry_card entry)"
  unfolding entry_card_def Let_def
  by (intro templated_intros templated_format_signature_html templated_concat_map
      templated_example_block)

lemma templated_category_block: "templated (category_block gs section_name cat)"
  unfolding category_block_def Let_def
  by (intro templated_intros templated_concat_map templated_entry_card)

lemma templated_content_section: "templated (content_section gs sec)"
  unfolding content_section_def
  by (cases sec) (simp only: prod.case, intro templated_concat_map templated_category_block)

lemma templated_sidebar_link: "templated (sidebar_link gs cat)"
  unfolding sidebar_link_def Let_def by (intro templated_intros)

lemma templated_sidebar_section: "templated (sidebar_section gs sec)"
  unfolding sidebar_section_def
  by (cases sec) (simp only: prod.case, intro templated_intros templated_concat_map templated_sidebar_link)

text \<open>
  Claim C9. Every text derived from scanned input (the name of an entry, its signature and
  the tokens of it, its description, its examples, the names of categories and sections)
  reaches the page escaped: by \<^verbatim>\<open>html.escape\<close> with quotes, or as an anchor, which holds
  only characters of \<^verbatim>\<open>[a-z0-9_-]\<close>. So the sidebar, the content and the statistics
  line are made of the fixed pieces of the template and of inert text only, whatever the
  doc comments hold: no markup of a doc comment is markup of the page.
\<close>

theorem page_markup_is_template:
  "templated (sidebar_html gs) \<and> templated (content_html gs) \<and> templated (doc_stats gs)"
proof (intro conjI)
  show "templated (sidebar_html gs)"
    unfolding sidebar_html_def sidebar_walk_def
    by (intro templated_intros templated_concat_map templated_sidebar_section)
  show "templated (content_html gs)"
    unfolding content_html_def content_walk_def
    by (intro templated_intros templated_concat_map templated_content_section)
  show "templated (doc_stats gs)"
    unfolding doc_stats_def by (intro templated_intros)
qed

theorem page_markup_is_template_witness:
  \<open>templated (content_html [(''Core'', [new_entry\<lparr>signature := ''max(a: <T>) -> "T"'', name := ''max'',
        description := ''<script>x</script> & more'',
        examples := [''max(1, 2)  // <b>2</b>'']\<rparr>])])
   \<and> content_html [(''Core'', [new_entry\<lparr>signature := ''max(a: <T>) -> "T"'', name := ''max'',
        description := ''<script>x</script> & more'',
        examples := [''max(1, 2)  // <b>2</b>'']\<rparr>])]
     = ''    <div class="doc-category" id="core">\<newline>''
     @ ''      <div class="section-label">Language</div>\<newline>''
     @ ''      <h2 class="section-title">Core</h2>\<newline>''
     @ ''      <div class="doc-entry" id="fn-max" data-name="max" data-desc="&lt;script&gt;x&lt;/script&gt; &amp; more">\<newline>''
     @ ''        <div class="doc-sig"><span class="fn">max</span><span class="text">(</span><span class="text">a</span><span class="op">:</span> <span class="typ">&lt;T&gt;</span><span class="text">)</span> <span class="op">-&gt;</span> <span class="typ">&quot;T&quot;</span></div>\<newline>''
     @ ''        <p class="doc-desc">&lt;script&gt;x&lt;/script&gt; &amp; more</p>\<newline>''
     @ ''        <div class="doc-examples">\<newline>''
     @ ''          <pre><code>max(1, 2)  <span class="cmt">// &lt;b&gt;2&lt;/b&gt;</span></code></pre>\<newline>''
     @ ''        </div>\<newline>''
     @ ''      </div>\<newline>''
     @ ''    </div>\<newline>''\<close>
proof (rule conjI)
  show "templated (content_html [(''Core'', [new_entry\<lparr>signature := ''max(a: <T>) -> \"T\"'',
        name := ''max'', description := ''<script>x</script> & more'',
        examples := [''max(1, 2)  // <b>2</b>'']\<rparr>])])"
    by (rule conjunct1 [OF conjunct2 [OF page_markup_is_template]])
qed code_simp

end
